theory Spec2Isabelle
  imports Main "HOL-Library.Char_ord" "HOL-Library.List_Lexorder" "HOL-Library.Option_ord"
begin

section \<open>The index: the table \<open>files(path, hash)\<close>\<close>

text \<open>
  The program keeps one sqlite table \<open>files\<close> with the text columns \<open>path\<close> and
  \<open>hash\<close>. A row is a pair; the hash column holds NULL (\<open>None\<close>) when the program
  stored Python's \<open>None\<close> there (\<open>HashFile\<close> returns \<open>None\<close> for a file it cannot
  read, and both \<open>HashDir\<close> and \<open>Integrity\<close> store what \<open>HashFile\<close> returns).
  The table is the list of its rows in insertion (rowid) order, which is the order
  a \<open>select\<close> without \<open>order by\<close> returns them in. The methods of \<open>Database\<close>
  read and change the connection's view of the table; what is stored when the
  process ends is settled by \<open>main\<close> below.
\<close>

type_synonym path = string
type_synonym digest = string
type_synonym row = "path \<times> digest option"
type_synonym table = "row list"

text \<open>
  sqlite's \<open>LIKE\<close> with \<open>PRAGMA case_sensitive_like=ON\<close>: \<open>%\<close> stands for any run of
  characters, \<open>_\<close> for any single character, every other character for itself.
  The first argument is the pattern.
\<close>

fun sql_like :: "string \<Rightarrow> string \<Rightarrow> bool" where
  "sql_like [] s = (s = [])"
| "sql_like (c # pat) [] = (c = CHR ''%'' \<and> sql_like pat [])"
| "sql_like (c # pat) (x # xs) =
     (if c = CHR ''%'' then sql_like pat (x # xs) \<or> sql_like (c # pat) xs
      else (c = CHR ''_'' \<or> c = x) \<and> sql_like pat xs)"

definition select_like :: "table \<Rightarrow> string \<Rightarrow> row list" where
  \<comment> \<open>\<open>select * from files where path like ?\<close>\<close>
  "select_like db pat = filter (\<lambda>r. sql_like pat (fst r)) db"

definition select_hash :: "table \<Rightarrow> digest option \<Rightarrow> row list" where
  \<comment> \<open>\<open>select * from files where hash=?\<close>; a comparison with NULL selects no row\<close>
  "select_hash db h =
     (case h of None \<Rightarrow> [] | Some d \<Rightarrow> filter (\<lambda>r. snd r = Some d) db)"

definition select_path :: "table \<Rightarrow> path \<Rightarrow> row list" where
  \<comment> \<open>\<open>select * from files where path=:p\<close>\<close>
  "select_path db p = filter (\<lambda>r. fst r = p) db"

definition delete_path :: "table \<Rightarrow> path \<Rightarrow> table" where
  \<comment> \<open>\<open>delete from files where path=?\<close>\<close>
  "delete_path db p = filter (\<lambda>r. fst r \<noteq> p) db"

definition update_hash :: "table \<Rightarrow> path \<Rightarrow> digest option \<Rightarrow> table" where
  \<comment> \<open>\<open>update files set hash=? where path=?\<close>\<close>
  "update_hash db p h = map (\<lambda>r. if fst r = p then (fst r, h) else r) db"

definition order_by_hash :: "table \<Rightarrow> row list" where
  \<comment> \<open>\<open>select * from files order by hash\<close>: NULL first, then text in byte order\<close>
  "order_by_hash db = sort_key snd db"

definition order_by_path :: "table \<Rightarrow> row list" where
  \<comment> \<open>\<open>select * from files order by path\<close>\<close>
  "order_by_path db = sort_key fst db"

section \<open>The file system\<close>

text \<open>
  What the program asks of the operating system: whether a path exists, is a
  regular file, is a symbolic link; the bytes of a file; and the removal of a
  directory entry. A path names a regular file (its bytes, and whether the process
  may read it), a directory, a symbolic link to another path, or a special file:
  a socket, or a FIFO that no process writes to. \<open>os.walk\<close> lists sockets and
  FIFOs among the files of a directory, so \<open>HashDir\<close> hands them to \<open>HashFile\<close>
  like any file. \<open>protected\<close> tells for which paths the directory entry may not
  be removed (the parent directory is not writable). Following links gives up
  after \<open>SYMLOOP_MAX\<close> links, as the kernel does. A regular file that has opened
  is read without error.
\<close>

datatype node = Regular "char list" bool | Directory | Symlink path | Socket | Fifo

record fsys =
  nodes :: "path \<Rightarrow> node option"
  protected :: "path \<Rightarrow> bool"

text \<open>
  What ends a call without a result: one of Python's exceptions, where \<open>OSError\<close>
  stands for every \<open>OSError\<close> that is none of its three subclasses named here
  (\<open>open\<close> on a socket raises it, with \<open>ENXIO\<close>), or \<open>Blocks\<close>: the call never
  returns, as \<open>open\<close> on a FIFO without a writer. Neither is followed by any
  further statement of the program.
\<close>

datatype exn =
    FileNotFoundError path
  | IsADirectoryError path
  | PermissionError path
  | OSError path
  | Blocks path

definition SYMLOOP_MAX :: nat where
  "SYMLOOP_MAX = 40"

fun resolve :: "(path \<Rightarrow> node option) \<Rightarrow> nat \<Rightarrow> path \<Rightarrow> node option" where
  "resolve ns 0 p = None"
| "resolve ns (Suc k) p =
     (case ns p of
        None \<Rightarrow> None
      | Some (Symlink q) \<Rightarrow> resolve ns k q
      | Some nd \<Rightarrow> Some nd)"

definition stat :: "fsys \<Rightarrow> path \<Rightarrow> node option" where
  "stat fs p = resolve (nodes fs) (Suc SYMLOOP_MAX) p"

definition os_path_exists :: "fsys \<Rightarrow> path \<Rightarrow> bool" where
  "os_path_exists fs p = (stat fs p \<noteq> None)"

definition os_path_isfile :: "fsys \<Rightarrow> path \<Rightarrow> bool" where
  "os_path_isfile fs p = (case stat fs p of Some (Regular bs r) \<Rightarrow> True | _ \<Rightarrow> False)"

definition os_path_islink :: "fsys \<Rightarrow> path \<Rightarrow> bool" where
  "os_path_islink fs p = (case nodes fs p of Some (Symlink q) \<Rightarrow> True | _ \<Rightarrow> False)"

definition open_rb :: "fsys \<Rightarrow> path \<Rightarrow> exn + char list" where
  \<comment> \<open>\<open>open(theFile, 'rb')\<close>: the bytes the handle will deliver\<close>
  "open_rb fs p =
     (case stat fs p of
        None \<Rightarrow> Inl (FileNotFoundError p)
      | Some Directory \<Rightarrow> Inl (IsADirectoryError p)
      | Some (Symlink q) \<Rightarrow> Inl (FileNotFoundError p)
      | Some Socket \<Rightarrow> Inl (OSError p)
      | Some Fifo \<Rightarrow> Inl (Blocks p)
      | Some (Regular bs r) \<Rightarrow> if r then Inr bs else Inl (PermissionError p))"

definition os_remove :: "fsys \<Rightarrow> path \<Rightarrow> exn + fsys" where
  \<comment> \<open>\<open>os.remove(path)\<close>: removes the entry itself, never the target of a link\<close>
  "os_remove fs p =
     (case nodes fs p of
        None \<Rightarrow> Inl (FileNotFoundError p)
      | Some nd \<Rightarrow>
          if protected fs p then Inl (PermissionError p)
          else if nd = Directory then Inl (IsADirectoryError p)
          else Inr (fs\<lparr>nodes := (nodes fs)(p := None)\<rparr>))"

section \<open>What the program prints and logs\<close>

text \<open>
  One event per line the program prints and per log record that reports a decision,
  a refusal or a warning, in the order they are emitted. Log records that only trace
  progress (\<open>Hashing file\<close>, \<open>Checking hash for\<close>) are left out.
\<close>

datatype event =
    HashLine "digest option"
  | PathLine path
  | FileChanged path "digest option" "digest option"
  | NoLongerExists path
  | UnableToRead path
  | NotInTargetDirectory path
  | RefuseLinked path
  | RefuseHashChanged path
  | NotADuplicate path
  | RefuseSameDirectory path
  | PurgingFile path
  | RemovingFromDatabase path
  | JustKidding
  | SanityCheckFailure path
  | HashChanged path

section \<open>\<open>sameDir\<close>\<close>

text \<open>
  Python's \<open>s.split("/")\<close>: one more piece than there are separators. In
  \<open>sameDir\<close> the loop reads \<open>thePath[z]\<close> for \<open>z < len(theFile) - 1\<close> only after
  the test on the lengths has let it pass, so the index is in range and no
  \<open>IndexError\<close> is raised (lemma \<open>sameDir_index_in_range\<close>); the loop that returns
  \<open>False\<close> at the first difference is \<open>list_all\<close> over the range.
\<close>

fun split_on :: "char \<Rightarrow> string \<Rightarrow> string list" where
  "split_on sep [] = [[]]"
| "split_on sep (c # cs) =
     (if c = sep then [] # split_on sep cs
      else (case split_on sep cs of
              [] \<Rightarrow> [[c]]
            | w # ws \<Rightarrow> (c # w) # ws))"

definition sameDir :: "string \<Rightarrow> string \<Rightarrow> bool" where
  "sameDir thePath theFile =
     (let theFile' = split_on CHR ''/'' theFile;
          thePath' = split_on CHR ''/'' thePath
      in if int (length theFile') - int (length thePath') > 1 then False
         else list_all (\<lambda>z. thePath' ! z = theFile' ! z) [0 ..< length theFile' - 1])"

definition dirname :: "string \<Rightarrow> string list" where
  \<comment> \<open>the directory a path lies in: its segments but the last\<close>
  "dirname p = butlast (split_on CHR ''/'' p)"

section \<open>\<open>HashFile\<close>\<close>

definition BLOCKSIZE :: nat where
  "BLOCKSIZE = 65536"

text \<open>
  The hasher object is the bytes it has been fed; \<open>hexdigest\<close> is \<open>sha256\<close> of
  them, where \<open>sha256\<close> (hashlib's) is a parameter of the model. The handle is the
  bytes not yet read; \<open>afile.read(BLOCKSIZE)\<close> takes the next block off them.
\<close>

function HashFile_loop :: "char list \<Rightarrow> char list \<Rightarrow> char list \<Rightarrow> char list" where
  "HashFile_loop hasher buf afile =
     (if length buf > 0
      then HashFile_loop (hasher @ buf) (take BLOCKSIZE afile) (drop BLOCKSIZE afile)
      else hasher)"
  by pat_completeness auto
termination
  by (relation "measure (\<lambda>(hasher, buf, afile). length buf + length afile)")
     (auto simp: min_def)

declare HashFile_loop.simps [simp del]

definition falsy :: "digest option \<Rightarrow> bool" where
  \<comment> \<open>Python's \<open>not theHash\<close>: \<open>None\<close> and the empty string\<close>
  "falsy h = (h = None \<or> h = Some [])"

definition HashFile ::
  "(char list \<Rightarrow> digest) \<Rightarrow> fsys \<Rightarrow> path \<Rightarrow> event list \<times> (exn + digest option)" where
  "HashFile sha256 fs theFile =
     (if \<not> os_path_exists fs theFile then ([NoLongerExists theFile], Inr None)
      else case open_rb fs theFile of
             Inl (PermissionError p) \<Rightarrow> ([UnableToRead theFile], Inr None)
           | Inl e \<Rightarrow> ([], Inl e)
           | Inr afile \<Rightarrow>
               ([], Inr (Some (sha256
                  (HashFile_loop [] (take BLOCKSIZE afile) (drop BLOCKSIZE afile))))))"

section \<open>\<open>Database.write\<close>\<close>

definition Database_write :: "table \<Rightarrow> digest option \<Rightarrow> path \<Rightarrow> event list \<times> table" where
  "Database_write db theHash thePath =
     (let matchingRecords = select_path db thePath
      in if length matchingRecords = 0 then ([], db @ [(thePath, theHash)])
         else
           (let ev1 = (if length matchingRecords > 1 then [SanityCheckFailure thePath] else [])
            in if snd (hd matchingRecords) \<noteq> theHash
               then (ev1 @ [HashChanged thePath], update_hash db thePath theHash)
               else (ev1, db)))"

section \<open>\<open>Database.DupCheck\<close>\<close>

fun DupCheck_loop :: "row list \<Rightarrow> digest option \<Rightarrow> path list \<Rightarrow> event list" where
  "DupCheck_loop [] old_hash pathList = []"
| "DupCheck_loop (workingRecord # rest) old_hash pathList =
     (if old_hash \<noteq> snd workingRecord
      then (if length pathList > 1 then HashLine old_hash # map PathLine pathList else [])
           @ DupCheck_loop rest (snd workingRecord) [fst workingRecord]
      else DupCheck_loop rest old_hash (pathList @ [fst workingRecord]))"

definition DupCheck :: "table \<Rightarrow> event list" where
  "DupCheck db = DupCheck_loop (order_by_hash db) (Some []) []"

section \<open>\<open>Database.Integrity\<close>\<close>

definition Integrity_step ::
  "(char list \<Rightarrow> digest) \<Rightarrow> bool \<Rightarrow> fsys \<Rightarrow> row \<Rightarrow> table
     \<Rightarrow> exn option \<times> event list \<times> table" where
  "Integrity_step sha256 DRY_RUN fs workingRecord db =
     (if os_path_isfile fs (fst workingRecord)
      then (case HashFile sha256 fs (fst workingRecord) of
              (ev, Inl e) \<Rightarrow> (Some e, ev, db)
            | (ev, Inr hash) \<Rightarrow>
                if snd workingRecord \<noteq> hash
                then (None,
                      ev @ [FileChanged (fst workingRecord) (snd workingRecord) hash],
                      if \<not> DRY_RUN then update_hash db (fst workingRecord) hash else db)
                else (None, ev, db))
      else (None, [NoLongerExists (fst workingRecord)],
            if \<not> DRY_RUN then delete_path db (fst workingRecord) else db))"

fun Integrity_loop ::
  "(char list \<Rightarrow> digest) \<Rightarrow> bool \<Rightarrow> fsys \<Rightarrow> row list \<Rightarrow> table
     \<Rightarrow> exn option \<times> event list \<times> table" where
  "Integrity_loop sha256 DRY_RUN fs [] db = (None, [], db)"
| "Integrity_loop sha256 DRY_RUN fs (workingRecord # rest) db =
     (case Integrity_step sha256 DRY_RUN fs workingRecord db of
        (Some e, ev, db') \<Rightarrow> (Some e, ev, db')
      | (None, ev, db') \<Rightarrow>
          (case Integrity_loop sha256 DRY_RUN fs rest db' of
             (x, ev', db'') \<Rightarrow> (x, ev @ ev', db'')))"

definition Integrity ::
  "(char list \<Rightarrow> digest) \<Rightarrow> bool \<Rightarrow> fsys \<Rightarrow> table \<Rightarrow> exn option \<times> event list \<times> table" where
  "Integrity sha256 DRY_RUN fs db = Integrity_loop sha256 DRY_RUN fs (order_by_path db) db"

section \<open>\<open>Database.Purge\<close>\<close>

text \<open>
  The loop over \<open>duplicates\<close> that sets \<open>die\<close>. It does not stop at the first
  stale file; an exception of \<open>HashFile\<close> leaves it.
\<close>

fun Purge_stale ::
  "(char list \<Rightarrow> digest) \<Rightarrow> fsys \<Rightarrow> row list \<Rightarrow> bool \<Rightarrow> event list \<times> (exn + bool)" where
  "Purge_stale sha256 fs [] die = ([], Inr die)"
| "Purge_stale sha256 fs (x # rest) die =
     (let link = os_path_islink fs (fst x);
          ev1 = (if link then [RefuseLinked (fst x)] else [])
      in case HashFile sha256 fs (fst x) of
           (ev2, Inl e) \<Rightarrow> (ev1 @ ev2, Inl e)
         | (ev2, Inr theHash) \<Rightarrow>
             (let stale = (falsy theHash \<or> snd x \<noteq> theHash);
                  ev3 = (if stale then [RefuseHashChanged (fst x)] else [])
              in case Purge_stale sha256 fs rest (die \<or> link \<or> stale) of
                   (ev4, r) \<Rightarrow> (ev1 @ ev2 @ ev3 @ ev4, r)))"

definition Purge_count :: "table \<Rightarrow> row \<Rightarrow> nat" where
  \<comment> \<open>the second query and the loop that counts the matches in the same directory\<close>
  "Purge_count db workingRecord =
     length (filter (\<lambda>x. sameDir (fst workingRecord) (fst x))
               (select_hash db (snd workingRecord)))"

definition Purge_step ::
  "(char list \<Rightarrow> digest) \<Rightarrow> bool \<Rightarrow> path \<Rightarrow> row \<Rightarrow> fsys \<Rightarrow> table
     \<Rightarrow> exn option \<times> event list \<times> fsys \<times> table" where
  "Purge_step sha256 DRY_RUN theRealPath workingRecord fs db =
     (if \<not> sameDir theRealPath (fst workingRecord)
      then (None, [NotInTargetDirectory (fst workingRecord)], fs, db)
      else
        let duplicates = select_hash db (snd workingRecord)
        in case Purge_stale sha256 fs duplicates False of
             (ev, Inl e) \<Rightarrow> (Some e, ev, fs, db)
           | (ev, Inr die) \<Rightarrow>
               if die then (None, ev, fs, db)
               else if length duplicates < 2
               then (None, ev @ [NotADuplicate (fst workingRecord)], fs, db)
               else if Purge_count db workingRecord \<noteq> 1
               then (None, ev @ [RefuseSameDirectory (fst workingRecord)], fs, db)
               else if DRY_RUN
               then (None, ev @ [PurgingFile (fst workingRecord), JustKidding], fs, db)
               else
                 (case os_remove fs (fst workingRecord) of
                    Inl e \<Rightarrow>
                      (Some e, ev @ [PurgingFile (fst workingRecord)], fs,
                       delete_path db (fst workingRecord))
                  | Inr fs' \<Rightarrow>
                      (None, ev @ [PurgingFile (fst workingRecord)], fs',
                       delete_path db (fst workingRecord))))"

fun Purge_loop ::
  "(char list \<Rightarrow> digest) \<Rightarrow> bool \<Rightarrow> path \<Rightarrow> row list \<Rightarrow> fsys \<Rightarrow> table
     \<Rightarrow> exn option \<times> event list \<times> fsys \<times> table" where
  "Purge_loop sha256 DRY_RUN theRealPath [] fs db = (None, [], fs, db)"
| "Purge_loop sha256 DRY_RUN theRealPath (workingRecord # rest) fs db =
     (case Purge_step sha256 DRY_RUN theRealPath workingRecord fs db of
        (Some e, ev, fs', db') \<Rightarrow> (Some e, ev, fs', db')
      | (None, ev, fs', db') \<Rightarrow>
          (case Purge_loop sha256 DRY_RUN theRealPath rest fs' db' of
             (x, ev', fs'', db'') \<Rightarrow> (x, ev @ ev', fs'', db'')))"

text \<open>
  \<open>theRealPath\<close> is \<open>os.path.abspath(thePath)\<close>, which the library computes from
  the command line's argument and the working directory; \<open>Purge\<close> and \<open>Remove\<close>
  take it in that form. The rows are fetched once, before the loop.
\<close>

definition Purge ::
  "(char list \<Rightarrow> digest) \<Rightarrow> bool \<Rightarrow> fsys \<Rightarrow> table \<Rightarrow> path
     \<Rightarrow> exn option \<times> event list \<times> fsys \<times> table" where
  "Purge sha256 DRY_RUN fs db theRealPath =
     Purge_loop sha256 DRY_RUN theRealPath (select_like db (theRealPath @ ''%'')) fs db"

section \<open>\<open>Database.Remove\<close>\<close>

fun Remove_loop :: "bool \<Rightarrow> row list \<Rightarrow> table \<Rightarrow> event list \<times> table" where
  "Remove_loop DRY_RUN [] db = ([], db)"
| "Remove_loop DRY_RUN (workingRecord # rest) db =
     (if DRY_RUN
      then (case Remove_loop DRY_RUN rest db of
              (ev, db') \<Rightarrow> (RemovingFromDatabase (fst workingRecord) # JustKidding # ev, db'))
      else (case Remove_loop DRY_RUN rest (delete_path db (fst workingRecord)) of
              (ev, db') \<Rightarrow> (RemovingFromDatabase (fst workingRecord) # ev, db')))"

definition Remove :: "bool \<Rightarrow> table \<Rightarrow> path \<Rightarrow> event list \<times> table" where
  "Remove DRY_RUN db theRealPath =
     Remove_loop DRY_RUN (select_like db (theRealPath @ ''%'')) db"

section \<open>The commands of \<open>main\<close>\<close>

text \<open>
  \<open>main\<close> calls, in the order of its table, the method of every option given:
  \<open>--check\<close> is \<open>Integrity\<close>, \<open>--purge\<close> is \<open>Purge\<close>, \<open>--remove\<close> is \<open>Remove\<close>.
  A sequence of commands is the commands of one run, or of successive runs of the
  program on the same database. An exception that no method catches ends it.
\<close>

datatype command = Check | PurgeCmd path | RemoveCmd path

definition run_command ::
  "(char list \<Rightarrow> digest) \<Rightarrow> bool \<Rightarrow> command \<Rightarrow> fsys \<Rightarrow> table
     \<Rightarrow> exn option \<times> event list \<times> fsys \<times> table" where
  "run_command sha256 DRY_RUN c fs db =
     (case c of
        Check \<Rightarrow> (case Integrity sha256 DRY_RUN fs db of (x, ev, db') \<Rightarrow> (x, ev, fs, db'))
      | PurgeCmd thePath \<Rightarrow> Purge sha256 DRY_RUN fs db thePath
      | RemoveCmd thePath \<Rightarrow>
          (case Remove DRY_RUN db thePath of (ev, db') \<Rightarrow> (None, ev, fs, db')))"

fun run_commands ::
  "(char list \<Rightarrow> digest) \<Rightarrow> bool \<Rightarrow> command list \<Rightarrow> fsys \<Rightarrow> table
     \<Rightarrow> exn option \<times> event list \<times> fsys \<times> table" where
  "run_commands sha256 DRY_RUN [] fs db = (None, [], fs, db)"
| "run_commands sha256 DRY_RUN (c # cs) fs db =
     (case run_command sha256 DRY_RUN c fs db of
        (Some e, ev, fs', db') \<Rightarrow> (Some e, ev, fs', db')
      | (None, ev, fs', db') \<Rightarrow>
          (case run_commands sha256 DRY_RUN cs fs' db' of
             (x, ev', fs'', db'') \<Rightarrow> (x, ev @ ev', fs'', db'')))"

text \<open>
  One run of the program. The table \<open>main\<close> is given is the index as it is
  stored when the run starts; the table it returns is the index as it is stored
  when the process has ended. The methods work on the connection's pending view
  and none of them commits: \<open>main\<close> calls \<open>theDatabase.close()\<close>, which commits,
  after the last command. An exception that no method catches leaves \<open>main\<close>
  before \<open>close()\<close>: sqlite rolls the pending changes back (the \<open>sqlite3\<close> module
  opens one transaction at the first \<open>DELETE\<close> or \<open>UPDATE\<close> and, since Python 3.6,
  commits nothing by itself), while the files the run has removed stay removed.
\<close>

definition main ::
  "(char list \<Rightarrow> digest) \<Rightarrow> bool \<Rightarrow> command list \<Rightarrow> fsys \<Rightarrow> table
     \<Rightarrow> exn option \<times> event list \<times> fsys \<times> table" where
  "main sha256 DRY_RUN cs fs db =
     (case run_commands sha256 DRY_RUN cs fs db of
        (None, ev, fs', db') \<Rightarrow> (None, ev, fs', db')
      | (Some e, ev, fs', db') \<Rightarrow> (Some e, ev, fs', db))"

section \<open>Concrete states for the examples\<close>

text \<open>
  The theorems hold for every function \<open>sha256\<close>. The examples run the model with
  a stand-in that is injective: the digest of a content is the content itself.
\<close>

definition toy_sha256 :: "char list \<Rightarrow> digest" where
  "toy_sha256 bs = bs"

definition fs_changed :: fsys where
  "fs_changed =
     \<lparr>nodes = [''/a'' \<mapsto> Directory,
               ''/a/x.txt'' \<mapsto> Regular ''new'' True,
               ''/a/locked.txt'' \<mapsto> Regular ''s'' False],
      protected = (\<lambda>p. False)\<rparr>"

definition db_changed :: table where
  "db_changed =
     [(''/a/x.txt'', Some ''old''), (''/a/gone.txt'', Some ''g''),
      (''/a/locked.txt'', Some ''s'')]"

definition db_old :: table where
  "db_old = [(''/old/a.txt'', Some ''H1''), (''/older/b.txt'', Some ''H2'')]"

definition fs_ab :: fsys where
  "fs_ab =
     \<lparr>nodes = [''/a'' \<mapsto> Directory, ''/b'' \<mapsto> Directory,
               ''/a/x.txt'' \<mapsto> Regular ''c'' True,
               ''/b/x.txt'' \<mapsto> Regular ''c'' True,
               ''/a/y.txt'' \<mapsto> Regular ''d'' True,
               ''/a/z.txt'' \<mapsto> Regular ''d'' True],
      protected = (\<lambda>p. False)\<rparr>"

definition db_scenario_A :: table where
  "db_scenario_A = [(''/a/x.txt'', Some ''c''), (''/b/x.txt'', Some ''c'')]"

definition db_scenario_B :: table where
  "db_scenario_B = [(''/a/y.txt'', Some ''d''), (''/a/z.txt'', Some ''d'')]"

definition fs_denied :: fsys where
  "fs_denied =
     \<lparr>nodes = [''/a'' \<mapsto> Directory, ''/b'' \<mapsto> Directory,
               ''/a/x.txt'' \<mapsto> Regular ''c'' True,
               ''/b/x.txt'' \<mapsto> Regular ''c'' True,
               ''/a/y.txt'' \<mapsto> Regular ''d'' True,
               ''/b/y.txt'' \<mapsto> Regular ''d'' True],
      protected = (\<lambda>p. p = ''/a/x.txt'')\<rparr>"

definition db_two_pairs :: table where
  "db_two_pairs =
     [(''/a/x.txt'', Some ''c''), (''/b/x.txt'', Some ''c''),
      (''/a/y.txt'', Some ''d''), (''/b/y.txt'', Some ''d'')]"


definition fs_denied_y :: fsys where
  "fs_denied_y =
     \<lparr>nodes = [''/a'' \<mapsto> Directory, ''/b'' \<mapsto> Directory,
               ''/a/x.txt'' \<mapsto> Regular ''c'' True,
               ''/b/x.txt'' \<mapsto> Regular ''c'' True,
               ''/a/y.txt'' \<mapsto> Regular ''d'' True,
               ''/b/y.txt'' \<mapsto> Regular ''d'' True],
      protected = (\<lambda>p. p = ''/a/y.txt'')\<rparr>"

definition db_locked_none :: table where
  "db_locked_none = [(''/a/locked.txt'', None)]"


section \<open>Predicates for the proofs about \<open>Purge\<close>\<close>

text \<open>
  What the loop over \<open>duplicates\<close> asks of one row for \<open>die\<close> to stay false, and
  what the proofs carry through the loop of \<open>Purge\<close> for every row deleted so far.
  The theorems of the claims are stated without them.
\<close>

definition not_stale :: "(char list \<Rightarrow> digest) \<Rightarrow> fsys \<Rightarrow> row \<Rightarrow> bool" where
  "not_stale sha256 fs x =
     (\<not> os_path_islink fs (fst x) \<and> snd (HashFile sha256 fs (fst x)) = Inr (snd x)
      \<and> \<not> falsy (snd x))"

definition purge_safe :: "(char list \<Rightarrow> digest) \<Rightarrow> fsys \<Rightarrow> table \<Rightarrow> row \<Rightarrow> bool" where
  "purge_safe sha256 fs db r =
     (not_stale sha256 fs r
      \<and> (\<forall>r'\<in>set db. snd r' = snd r \<and> fst r' \<noteq> fst r
            \<longrightarrow> not_stale sha256 fs r' \<and> dirname (fst r') \<noteq> dirname (fst r)))"

section \<open>Facts about the parts\<close>

lemmas eval_simps = stat_def os_path_exists_def os_path_isfile_def os_path_islink_def
  open_rb_def os_remove_def HashFile_def select_like_def select_hash_def delete_path_def
  update_hash_def order_by_hash_def order_by_path_def sameDir_def Purge_count_def
  Purge_step_def Purge_def Integrity_step_def Integrity_def Remove_def toy_sha256_def
  falsy_def dirname_def run_command_def

lemma split_on_not_Nil: "split_on sep s \<noteq> []"
  by (induction s) (auto split: list.splits)

lemma sameDir_index_in_range:
  assumes "\<not> int (length (split_on CHR ''/'' theFile))
             - int (length (split_on CHR ''/'' thePath)) > 1"
      and "z < length (split_on CHR ''/'' theFile) - 1"
  shows "z < length (split_on CHR ''/'' thePath)"
  using assms by arith

lemma HashFile_loop_all:
  "(buf = [] \<longrightarrow> afile = []) \<Longrightarrow> HashFile_loop hasher buf afile = hasher @ buf @ afile"
proof (induction hasher buf afile rule: HashFile_loop.induct)
  case (1 hasher buf afile)
  show ?case
  proof (cases "buf = []")
    case True
    with "1.prems" show ?thesis by (simp add: HashFile_loop.simps)
  next
    case False
    have "take BLOCKSIZE afile = [] \<longrightarrow> drop BLOCKSIZE afile = []"
      by (auto simp: BLOCKSIZE_def)
    with False "1.IH" have "HashFile_loop (hasher @ buf) (take BLOCKSIZE afile) (drop BLOCKSIZE afile)
        = (hasher @ buf) @ take BLOCKSIZE afile @ drop BLOCKSIZE afile"
      by simp
    with False show ?thesis
      by (subst HashFile_loop.simps) simp
  qed
qed

lemma HashFile_blocks: "HashFile_loop [] (take BLOCKSIZE bs) (drop BLOCKSIZE bs) = bs"
  using HashFile_loop_all [of "take BLOCKSIZE bs" "drop BLOCKSIZE bs" "[]"]
  by (auto simp: BLOCKSIZE_def)

lemma resolve_not_Symlink: "resolve ns k p \<noteq> Some (Symlink q)"
  by (induction k arbitrary: p) (auto split: option.splits node.splits)

lemma stat_not_Symlink: "stat fs p \<noteq> Some (Symlink q)"
  by (simp add: stat_def resolve_not_Symlink del: resolve.simps)

lemma HashFile_value:
  "snd (HashFile sha256 fs p) =
     (case stat fs p of
        None \<Rightarrow> Inr None
      | Some (Regular bs r) \<Rightarrow> Inr (if r then Some (sha256 bs) else None)
      | Some Directory \<Rightarrow> Inl (IsADirectoryError p)
      | Some (Symlink q) \<Rightarrow> Inr None
      | Some Socket \<Rightarrow> Inl (OSError p)
      | Some Fifo \<Rightarrow> Inl (Blocks p))"
  using stat_not_Symlink [of fs p]
  by (auto simp: HashFile_def os_path_exists_def open_rb_def HashFile_blocks
           split: option.splits node.splits)


lemma HashFile_events:
  "fst (HashFile sha256 fs p) =
     (case stat fs p of
        None \<Rightarrow> [NoLongerExists p]
      | Some (Regular bs r) \<Rightarrow> if r then [] else [UnableToRead p]
      | Some Directory \<Rightarrow> []
      | Some (Symlink q) \<Rightarrow> [NoLongerExists p]
      | Some Socket \<Rightarrow> []
      | Some Fifo \<Rightarrow> [])"
  using stat_not_Symlink [of fs p]
  by (auto simp: HashFile_def os_path_exists_def open_rb_def
           split: option.splits node.splits)

lemma DupCheck_loop_same:
  "\<forall>r\<in>set rows. snd r = old_hash \<Longrightarrow> DupCheck_loop rows old_hash pathList = []"
  by (induction rows arbitrary: pathList) auto

lemma Integrity_step_no_exn: "fst (Integrity_step sha256 d fs r db) = None"
  using HashFile_value [of sha256 fs "fst r"]
  by (cases "HashFile sha256 fs (fst r)")
     (auto simp: Integrity_step_def os_path_isfile_def split: option.splits node.splits sum.splits)

lemma Integrity_step_events:
  "fst (snd (Integrity_step sha256 d fs r db)) = fst (snd (Integrity_step sha256 d' fs r db'))"
  by (cases "HashFile sha256 fs (fst r)")
     (auto simp: Integrity_step_def split: sum.splits)

lemma Integrity_step_dry: "snd (snd (Integrity_step sha256 True fs r db)) = db"
  by (cases "HashFile sha256 fs (fst r)")
     (auto simp: Integrity_step_def split: sum.splits)

lemma Integrity_step_verified:
  assumes "os_path_isfile fs (fst r)" and "snd (HashFile sha256 fs (fst r)) = Inr (snd r)"
  shows "Integrity_step sha256 d fs r db = (None, fst (HashFile sha256 fs (fst r)), db)"
  using assms by (cases "HashFile sha256 fs (fst r)") (auto simp: Integrity_step_def)

lemma Integrity_step_inv:
  assumes "Integrity_step sha256 False fs r db = (x, ev, db')"
      and "\<forall>r'\<in>set db. (os_path_isfile fs (fst r') \<and> snd (HashFile sha256 fs (fst r')) = Inr (snd r'))
              \<or> r' \<in> set (r # rest)"
  shows "\<forall>r'\<in>set db'. (os_path_isfile fs (fst r') \<and> snd (HashFile sha256 fs (fst r')) = Inr (snd r'))
              \<or> r' \<in> set rest"
proof (cases "os_path_isfile fs (fst r)")
  case False
  with assms(1) have "db' = delete_path db (fst r)"
    by (simp add: Integrity_step_def)
  with assms(2) show ?thesis
    by (auto simp: delete_path_def)
next
  case True
  obtain ev0 res where hf: "HashFile sha256 fs (fst r) = (ev0, res)"
    by (cases "HashFile sha256 fs (fst r)")
  from True HashFile_value [of sha256 fs "fst r"] hf obtain h where res: "res = Inr h"
    by (auto simp: os_path_isfile_def split: option.splits node.splits)
  show ?thesis
  proof (cases "snd r = h")
    case same: True
    with assms(1) True hf res have "db' = db"
      by (simp add: Integrity_step_def)
    moreover from same True hf res
    have "os_path_isfile fs (fst r) \<and> snd (HashFile sha256 fs (fst r)) = Inr (snd r)"
      by simp
    ultimately show ?thesis using assms(2) by auto
  next
    case differ: False
    with assms(1) True hf res have db': "db' = update_hash db (fst r) h"
      by (simp add: Integrity_step_def)
    show ?thesis
    proof
      fix r' assume "r' \<in> set db'"
      with db' have "\<exists>r0\<in>set db. r' = (if fst r0 = fst r then (fst r0, h) else r0)"
        by (auto simp: update_hash_def)
      then obtain r0 where r0: "r0 \<in> set db"
        and r': "r' = (if fst r0 = fst r then (fst r0, h) else r0)"
        by blast
      show "(os_path_isfile fs (fst r') \<and> snd (HashFile sha256 fs (fst r')) = Inr (snd r'))
              \<or> r' \<in> set rest"
      proof (cases "fst r0 = fst r")
        case True
        with r' \<open>os_path_isfile fs (fst r)\<close> hf res show ?thesis by simp
      next
        case False
        with r' have "r' = r0" by simp
        with r0 assms(2) False show ?thesis by auto
      qed
    qed
  qed
qed

lemma Integrity_loop_verified:
  "Integrity_loop sha256 False fs rows db = (x, ev, db') \<Longrightarrow>
   \<forall>r'\<in>set db. (os_path_isfile fs (fst r') \<and> snd (HashFile sha256 fs (fst r')) = Inr (snd r'))
              \<or> r' \<in> set rows \<Longrightarrow>
   \<forall>r'\<in>set db'. os_path_isfile fs (fst r') \<and> snd (HashFile sha256 fs (fst r')) = Inr (snd r')"
proof (induction rows arbitrary: db x ev)
  case Nil
  then show ?case by simp
next
  case (Cons r rows)
  obtain x1 ev1 db1 where st: "Integrity_step sha256 False fs r db = (x1, ev1, db1)"
    by (cases "Integrity_step sha256 False fs r db") auto
  with Integrity_step_no_exn [of sha256 False fs r db] have x1: "x1 = None" by simp
  from Cons.prems(1) st x1
  obtain x2 ev2 where lp: "Integrity_loop sha256 False fs rows db1 = (x2, ev2, db')"
    by (cases "Integrity_loop sha256 False fs rows db1") auto
  have "\<forall>r'\<in>set db1. (os_path_isfile fs (fst r') \<and> snd (HashFile sha256 fs (fst r')) = Inr (snd r'))
              \<or> r' \<in> set rows"
    using st Cons.prems(2) by (rule Integrity_step_inv)
  with lp show ?case
    by (rule Cons.IH)
qed

lemma Integrity_loop_noop:
  "\<forall>r\<in>set rows. os_path_isfile fs (fst r) \<and> snd (HashFile sha256 fs (fst r)) = Inr (snd r) \<Longrightarrow>
   Integrity_loop sha256 d fs rows db =
     (None, concat (map (\<lambda>r. fst (HashFile sha256 fs (fst r))) rows), db)"
  by (induction rows) (auto simp: Integrity_step_verified)

lemma HashFile_events_isfile:
  "os_path_isfile fs p \<Longrightarrow> e \<in> set (fst (HashFile sha256 fs p)) \<Longrightarrow> e = UnableToRead p"
  by (auto simp: HashFile_events os_path_isfile_def split: option.splits node.splits if_splits)

lemma update_hash_paths: "map fst (update_hash db q h) = map fst db"
  by (induction db) (auto simp: update_hash_def)

lemma Integrity_loop_events:
  "Integrity_loop sha256 d fs rows db = (x, ev, db') \<Longrightarrow> r \<in> set rows \<Longrightarrow>
   set (fst (snd (Integrity_step sha256 d fs r db0))) \<subseteq> set ev"
proof (induction rows arbitrary: db x ev)
  case Nil
  then show ?case by simp
next
  case (Cons r0 rows)
  obtain x1 ev1 db1 where st: "Integrity_step sha256 d fs r0 db = (x1, ev1, db1)"
    by (cases "Integrity_step sha256 d fs r0 db") auto
  with Integrity_step_no_exn [of sha256 d fs r0 db] have x1: "x1 = None" by simp
  from Cons.prems(1) st x1
  obtain x2 ev2 where lp: "Integrity_loop sha256 d fs rows db1 = (x2, ev2, db')"
    and ev: "ev = ev1 @ ev2"
    by (cases "Integrity_loop sha256 d fs rows db1") auto
  show ?case
  proof (cases "r = r0")
    case True
    from st have "fst (snd (Integrity_step sha256 d fs r0 db)) = ev1" by simp
    with Integrity_step_events [of sha256 d fs r0 db0 d db] True ev show ?thesis by simp
  next
    case False
    with Cons.prems(2) have "r \<in> set rows" by simp
    with Cons.IH [OF lp] ev show ?thesis by auto
  qed
qed

lemma Integrity_step_keeps_path:
  assumes "Integrity_step sha256 d fs r db = (x, ev, db')"
      and "os_path_isfile fs p" and "p \<in> fst ` set db"
  shows "p \<in> fst ` set db'"
proof -
  have "db' = db \<or> (os_path_isfile fs (fst r) \<and> (\<exists>h. db' = update_hash db (fst r) h))
         \<or> (\<not> os_path_isfile fs (fst r) \<and> db' = delete_path db (fst r))"
    using assms(1)
    by (cases "HashFile sha256 fs (fst r)")
       (auto simp: Integrity_step_def split: sum.splits if_splits)
  moreover have "fst ` set (update_hash db q h) = fst ` set db" for q h
    using update_hash_paths [of db q h] by (metis set_map)
  moreover have "p \<in> fst ` set (delete_path db q)" if "q \<noteq> p" for q
    using that assms(3) by (force simp: delete_path_def image_iff)
  ultimately show ?thesis using assms(2,3) by metis
qed

lemma Integrity_loop_keeps_path:
  "Integrity_loop sha256 d fs rows db = (x, ev, db') \<Longrightarrow> os_path_isfile fs p \<Longrightarrow>
   p \<in> fst ` set db \<Longrightarrow> p \<in> fst ` set db'"
proof (induction rows arbitrary: db x ev)
  case Nil
  then show ?case by simp
next
  case (Cons r0 rows)
  obtain x1 ev1 db1 where st: "Integrity_step sha256 d fs r0 db = (x1, ev1, db1)"
    by (cases "Integrity_step sha256 d fs r0 db") auto
  with Integrity_step_no_exn [of sha256 d fs r0 db] have x1: "x1 = None" by simp
  from Cons.prems(1) st x1
  obtain x2 ev2 where lp: "Integrity_loop sha256 d fs rows db1 = (x2, ev2, db')"
    by (cases "Integrity_loop sha256 d fs rows db1") auto
  from st Cons.prems(2,3) have "p \<in> fst ` set db1" by (rule Integrity_step_keeps_path)
  with lp Cons.prems(2) show ?case by (rule Cons.IH)
qed



lemma Integrity_all_verified:
  assumes "Integrity sha256 False fs db = (x, ev, db1)"
  shows "\<forall>r\<in>set db1. os_path_isfile fs (fst r) \<and> snd (HashFile sha256 fs (fst r)) = Inr (snd r)"
proof -
  have "\<forall>r'\<in>set db. (os_path_isfile fs (fst r') \<and> snd (HashFile sha256 fs (fst r')) = Inr (snd r'))
              \<or> r' \<in> set (order_by_path db)"
    by (simp add: order_by_path_def)
  with assms show ?thesis
    unfolding Integrity_def by (rule Integrity_loop_verified)
qed

lemma Integrity_on_verified:
  assumes "\<forall>r\<in>set db1. os_path_isfile fs (fst r) \<and> snd (HashFile sha256 fs (fst r)) = Inr (snd r)"
  shows "Integrity sha256 d fs db1 =
           (None, concat (map (\<lambda>r. fst (HashFile sha256 fs (fst r))) (order_by_path db1)), db1)"
proof -
  from assms have "\<forall>r\<in>set (order_by_path db1).
      os_path_isfile fs (fst r) \<and> snd (HashFile sha256 fs (fst r)) = Inr (snd r)"
    by (simp add: order_by_path_def)
  then show ?thesis
    unfolding Integrity_def by (rule Integrity_loop_noop)
qed

lemma Integrity_first_run:
  "Integrity toy_sha256 False fs_changed db_changed =
     (None,
      [NoLongerExists ''/a/gone.txt'', UnableToRead ''/a/locked.txt'',
       FileChanged ''/a/locked.txt'' (Some ''s'') None,
       FileChanged ''/a/x.txt'' (Some ''old'') (Some ''new'')],
      [(''/a/x.txt'', Some ''new''), (''/a/locked.txt'', None)])"
  by (simp add: eval_simps HashFile_blocks fs_changed_def db_changed_def
        less_eq_char_def less_char_def)

lemma sameDir_refl: "sameDir p p"
  by (simp add: sameDir_def list_all_iff)

lemma sameDir_same_dirname:
  assumes "dirname q = dirname p"
  shows "sameDir p q"
proof -
  let ?f = "split_on CHR ''/'' q" and ?p = "split_on CHR ''/'' p"
  from assms have bl: "butlast ?f = butlast ?p" by (simp add: dirname_def)
  then have "length ?f - 1 = length ?p - 1" by (metis length_butlast)
  moreover have "?f \<noteq> []" and "?p \<noteq> []" by (rule split_on_not_Nil)+
  then have "0 < length ?f" and "0 < length ?p" by simp_all
  ultimately have len: "length ?f = length ?p" by arith
  have "?p ! z = ?f ! z" if "z < length ?f - 1" for z
  proof -
    from that have "butlast ?f ! z = ?f ! z" by (simp add: nth_butlast)
    moreover from that len have "butlast ?p ! z = ?p ! z" by (simp add: nth_butlast)
    ultimately show ?thesis using bl by simp
  qed
  with len show ?thesis by (simp add: sameDir_def list_all_iff)
qed

lemma filter_two:
  assumes "x \<in> set xs" and "y \<in> set xs" and "x \<noteq> y" and "P x" and "P y"
  shows "2 \<le> length (filter P xs)"
proof -
  from assms have "{x, y} \<subseteq> set (filter P xs)" by simp
  then have "card {x, y} \<le> card (set (filter P xs))" by (intro card_mono) simp_all
  also have "\<dots> \<le> length (filter P xs)" by (rule card_length)
  finally show ?thesis using assms(3) by simp
qed

lemma stat_not_link: "\<not> os_path_islink fs p \<Longrightarrow> stat fs p = nodes fs p"
  by (auto simp: os_path_islink_def stat_def split: option.splits node.splits)

lemma not_stale_nodes:
  assumes "nodes fs (fst r) = nodes fs0 (fst r)"
  shows "not_stale sha256 fs r = not_stale sha256 fs0 r"
proof -
  from assms have l: "os_path_islink fs (fst r) = os_path_islink fs0 (fst r)"
    by (simp add: os_path_islink_def)
  show ?thesis
  proof (cases "os_path_islink fs (fst r)")
    case True
    with l show ?thesis by (simp add: not_stale_def)
  next
    case False
    with l assms have "stat fs (fst r) = stat fs0 (fst r)" by (simp add: stat_not_link)
    with l show ?thesis by (simp add: not_stale_def HashFile_value)
  qed
qed

lemma Purge_stale_False:
  "Purge_stale sha256 fs rows die = (ev, Inr False) \<Longrightarrow>
   \<not> die \<and> (\<forall>x\<in>set rows. not_stale sha256 fs x)"
proof (induction rows arbitrary: die ev)
  case Nil
  then show ?case by simp
next
  case (Cons x rows)
  obtain ev2 res where hf: "HashFile sha256 fs (fst x) = (ev2, res)"
    by (cases "HashFile sha256 fs (fst x)")
  with Cons.prems obtain theHash where res: "res = Inr theHash"
    by (cases res) (auto simp: Let_def)
  let ?die = "die \<or> os_path_islink fs (fst x) \<or> (falsy theHash \<or> snd x \<noteq> theHash)"
  from Cons.prems hf res obtain ev4 where
    rec: "Purge_stale sha256 fs rows ?die = (ev4, Inr False)"
    by (cases "Purge_stale sha256 fs rows ?die") (auto simp: Let_def)
  from Cons.IH [OF rec] hf res show ?case
    by (auto simp: not_stale_def)
qed

lemma Purge_step_outcome:
  assumes "Purge_step sha256 d rp r fs db = (x, ev, fs', db')"
  shows "(fs' = fs \<and> db' = db)
         \<or> (\<not> d \<and> sameDir rp (fst r)
            \<and> (\<forall>x\<in>set (select_hash db (snd r)). not_stale sha256 fs x)
            \<and> 2 \<le> length (select_hash db (snd r))
            \<and> Purge_count db r = 1
            \<and> db' = delete_path db (fst r)
            \<and> ((x = None \<and> os_remove fs (fst r) = Inr fs')
                \<or> (fs' = fs \<and> (\<exists>e. x = Some e \<and> os_remove fs (fst r) = Inl e))))"
proof (cases "Purge_stale sha256 fs (select_hash db (snd r)) False")
  case (Pair ev0 res)
  show ?thesis
  proof (cases res)
    case (Inl e)
    with Pair assms show ?thesis by (auto simp: Purge_step_def Let_def split: if_splits)
  next
    case (Inr die)
    show ?thesis
    proof (cases die)
      case True
      with Inr Pair assms show ?thesis by (auto simp: Purge_step_def Let_def split: if_splits)
    next
      case False
      with Inr Pair have "\<forall>x\<in>set (select_hash db (snd r)). not_stale sha256 fs x"
        using Purge_stale_False [of sha256 fs "select_hash db (snd r)" False ev0] by simp
      with False Inr Pair assms show ?thesis
        by (auto simp: Purge_step_def Let_def split: if_splits sum.splits)
    qed
  qed
qed

lemma Purge_step_dry: "snd (snd (Purge_step sha256 True rp r fs db)) = (fs, db)"
  using Purge_step_outcome [of sha256 True rp r fs db]
  by (cases "Purge_step sha256 True rp r fs db") auto

lemma os_remove_nodes:
  "os_remove fs p = Inr fs' \<Longrightarrow> nodes fs' = (nodes fs)(p := None) \<and> protected fs' = protected fs"
  by (auto simp: os_remove_def split: option.splits if_splits)

lemma select_hash_mem:
  "r \<in> set (select_hash db h) \<longleftrightarrow> r \<in> set db \<and> snd r = h \<and> h \<noteq> None"
  by (cases h) (auto simp: select_hash_def)

lemma delete_path_mem: "r' \<in> set (delete_path db p) \<longleftrightarrow> r' \<in> set db \<and> fst r' \<noteq> p"
  by (auto simp: delete_path_def)

lemma distinct_paths_row:
  "distinct (map fst db) \<Longrightarrow> r \<in> set db \<Longrightarrow> r' \<in> set db \<Longrightarrow> fst r' = fst r \<Longrightarrow> r' = r"
  by (metis distinct_map inj_onD)

lemma Purge_step_purged_safe:
  assumes dist: "distinct (map fst db0)"
      and rdb: "r \<in> set db" and sub: "set db \<subseteq> set db0"
      and nod: "\<forall>r'\<in>set db. nodes fs (fst r') = nodes fs0 (fst r')"
      and old: "\<forall>r'\<in>set db0 - set db. purge_safe sha256 fs0 db0 r'"
      and grp: "\<forall>x\<in>set (select_hash db (snd r)). not_stale sha256 fs x"
      and two: "2 \<le> length (select_hash db (snd r))"
      and cnt: "Purge_count db r = 1"
  shows "purge_safe sha256 fs0 db0 r"
proof -
  from two have "select_hash db (snd r) \<noteq> []" by auto
  then have some: "snd r \<noteq> None" by (cases "snd r") (auto simp: select_hash_def)
  with rdb have rin: "r \<in> set (select_hash db (snd r))" by (simp add: select_hash_mem)
  have fresh_db: "not_stale sha256 fs0 r'" if "r' \<in> set db" and "snd r' = snd r" for r'
  proof -
    from that some have "r' \<in> set (select_hash db (snd r))" by (simp add: select_hash_mem)
    with grp have "not_stale sha256 fs r'" by blast
    moreover from nod that(1) have "nodes fs (fst r') = nodes fs0 (fst r')" by blast
    then have "not_stale sha256 fs r' = not_stale sha256 fs0 r'" by (rule not_stale_nodes)
    ultimately show ?thesis by simp
  qed
  have other: "not_stale sha256 fs0 r' \<and> dirname (fst r') \<noteq> dirname (fst r)"
    if mem: "r' \<in> set db0" and same: "snd r' = snd r" and diff: "fst r' \<noteq> fst r" for r'
  proof (cases "r' \<in> set db")
    case True
    from True same have 1: "not_stale sha256 fs0 r'" by (rule fresh_db)
    have "dirname (fst r') \<noteq> dirname (fst r)"
    proof
      assume "dirname (fst r') = dirname (fst r)"
      then have sd: "sameDir (fst r) (fst r')" by (rule sameDir_same_dirname)
      from True same some have "r' \<in> set (select_hash db (snd r))"
        by (simp add: select_hash_mem)
      moreover from diff have "r \<noteq> r'" by auto
      ultimately have "2 \<le> length (filter (\<lambda>x. sameDir (fst r) (fst x)) (select_hash db (snd r)))"
        using rin sd sameDir_refl [of "fst r"]
        by (intro filter_two [of r _ r']) simp_all
      with cnt show False by (simp add: Purge_count_def)
    qed
    with 1 show ?thesis by simp
  next
    case False
    with mem old have safe: "purge_safe sha256 fs0 db0 r'" by blast
    from rdb sub have "r \<in> set db0" by blast
    with safe same diff have "dirname (fst r) \<noteq> dirname (fst r')"
      by (auto simp: purge_safe_def)
    with safe show ?thesis by (auto simp: purge_safe_def)
  qed
  from rdb fresh_db have "not_stale sha256 fs0 r" by simp
  with other show ?thesis by (auto simp: purge_safe_def)
qed

lemma Purge_step_safe:
  assumes dist: "distinct (map fst db0)"
      and step: "Purge_step sha256 d rp r fs db = (x, ev, fs1, db1)"
      and rdb: "r \<in> set db" and sub: "set db \<subseteq> set db0"
      and nod: "\<forall>r'\<in>set db. nodes fs (fst r') = nodes fs0 (fst r')"
      and old: "\<forall>r'\<in>set db0 - set db. purge_safe sha256 fs0 db0 r'"
  shows "(db1 = db \<or> db1 = delete_path db (fst r))
         \<and> (\<forall>r'\<in>set db1. nodes fs1 (fst r') = nodes fs0 (fst r'))
         \<and> (\<forall>r'\<in>set db0 - set db1. purge_safe sha256 fs0 db0 r')"
proof -
  from Purge_step_outcome [OF step]
  consider (same) "fs1 = fs" "db1 = db"
    | (purged) "\<forall>x\<in>set (select_hash db (snd r)). not_stale sha256 fs x"
        "2 \<le> length (select_hash db (snd r))" "Purge_count db r = 1"
        "db1 = delete_path db (fst r)"
        "os_remove fs (fst r) = Inr fs1 \<or> fs1 = fs"
    by blast
  then show ?thesis
  proof cases
    case same
    with nod old show ?thesis by simp
  next
    case purged
    from dist rdb sub nod old purged(1-3) have safe: "purge_safe sha256 fs0 db0 r"
      by (rule Purge_step_purged_safe)
    have n1: "nodes fs1 (fst r') = nodes fs0 (fst r')" if "r' \<in> set db1" for r'
    proof -
      from that purged(4) have "r' \<in> set db" and "fst r' \<noteq> fst r"
        by (simp_all add: delete_path_mem)
      moreover from purged(5) have "nodes fs1 = (nodes fs)(fst r := None) \<or> fs1 = fs"
        using os_remove_nodes by blast
      ultimately show ?thesis using nod by auto
    qed
    have s1: "purge_safe sha256 fs0 db0 r'" if "r' \<in> set db0 - set db1" for r'
    proof (cases "r' \<in> set db")
      case False
      with that old show ?thesis by blast
    next
      case True
      with that purged(4) have "fst r' = fst r" by (simp add: delete_path_mem)
      with dist True rdb sub have "r' = r"
        by (meson distinct_paths_row subsetD)
      with safe show ?thesis by simp
    qed
    from purged(4) n1 s1 show ?thesis by blast
  qed
qed

lemma Purge_loop_safe:
  assumes "distinct (map fst db0)"
  shows "Purge_loop sha256 d rp rows fs db = (x, ev, fs', db') \<Longrightarrow>
         set rows \<subseteq> set db \<Longrightarrow> distinct (map fst rows) \<Longrightarrow> set db \<subseteq> set db0 \<Longrightarrow>
         \<forall>r'\<in>set db. nodes fs (fst r') = nodes fs0 (fst r') \<Longrightarrow>
         \<forall>r'\<in>set db0 - set db. purge_safe sha256 fs0 db0 r' \<Longrightarrow>
         \<forall>r'\<in>set db0 - set db'. purge_safe sha256 fs0 db0 r'"
proof (induction rows arbitrary: fs db x ev)
  case Nil
  then show ?case by simp
next
  case (Cons r rows)
  obtain x1 ev1 fs1 db1 where step: "Purge_step sha256 d rp r fs db = (x1, ev1, fs1, db1)"
    by (cases "Purge_step sha256 d rp r fs db") auto
  from Cons.prems(2) have rdb: "r \<in> set db" by simp
  from Purge_step_safe [OF assms step rdb Cons.prems(4,5,6)]
  have db1: "db1 = db \<or> db1 = delete_path db (fst r)"
    and n1: "\<forall>r'\<in>set db1. nodes fs1 (fst r') = nodes fs0 (fst r')"
    and s1: "\<forall>r'\<in>set db0 - set db1. purge_safe sha256 fs0 db0 r'"
    by blast+
  show ?case
  proof (cases x1)
    case (Some e)
    with Cons.prems(1) step have "db' = db1" by simp
    with s1 show ?thesis by simp
  next
    case None
    with Cons.prems(1) step obtain x2 ev2 where
      lp: "Purge_loop sha256 d rp rows fs1 db1 = (x2, ev2, fs', db')"
      by (cases "Purge_loop sha256 d rp rows fs1 db1") auto
    have rows1: "set rows \<subseteq> set db1"
    proof
      fix r' assume r': "r' \<in> set rows"
      with Cons.prems(2) have "r' \<in> set db" by auto
      moreover from Cons.prems(3) have "fst r \<notin> fst ` set rows" by simp
      with r' have "fst r' \<noteq> fst r" by (metis imageI)
      ultimately show "r' \<in> set db1" using db1 by (auto simp: delete_path_mem)
    qed
    from Cons.prems(3) have drows: "distinct (map fst rows)" by simp
    from db1 Cons.prems(4) have sub1: "set db1 \<subseteq> set db0"
      by (auto simp: delete_path_mem)
    from lp rows1 drows sub1 n1 s1 show ?thesis by (rule Cons.IH)
  qed
qed

lemma Purge_loop_nodes:
  "Purge_loop sha256 d rp rows fs db = (x, ev, fs', db') \<Longrightarrow>
   set db' \<subseteq> set db \<and> (\<forall>q\<in>fst ` set db'. nodes fs' q = nodes fs q)
   \<and> protected fs' = protected fs"
proof (induction rows arbitrary: fs db x ev)
  case Nil
  then show ?case by simp
next
  case (Cons r rows)
  obtain x1 ev1 fs1 db1 where step: "Purge_step sha256 d rp r fs db = (x1, ev1, fs1, db1)"
    by (cases "Purge_step sha256 d rp r fs db") auto
  from Purge_step_outcome [OF step]
  have "(fs1 = fs \<and> db1 = db)
        \<or> (db1 = delete_path db (fst r) \<and> (os_remove fs (fst r) = Inr fs1 \<or> fs1 = fs))"
    by blast
  then have one: "set db1 \<subseteq> set db \<and> (\<forall>q\<in>fst ` set db1. nodes fs1 q = nodes fs q)
      \<and> protected fs1 = protected fs"
    using os_remove_nodes [of fs "fst r" fs1] by (auto simp: delete_path_mem)
  show ?case
  proof (cases x1)
    case (Some e)
    with Cons.prems step have "fs' = fs1" and "db' = db1" by simp_all
    with one show ?thesis by simp
  next
    case None
    with Cons.prems step obtain x2 ev2 where
      lp: "Purge_loop sha256 d rp rows fs1 db1 = (x2, ev2, fs', db')"
      by (cases "Purge_loop sha256 d rp rows fs1 db1") auto
    from Cons.IH [OF lp] one show ?thesis by fastforce
  qed
qed

lemma Purge_deleted_safe:
  assumes "distinct (map fst db)"
      and "Purge sha256 d fs db rp = (x, ev, fs', db')"
      and "r \<in> set db" and "r \<notin> set db'"
  shows "purge_safe sha256 fs db r"
proof -
  let ?rows = "select_like db (rp @ ''%'')"
  from assms(2) have run: "Purge_loop sha256 d rp ?rows fs db = (x, ev, fs', db')"
    by (simp add: Purge_def)
  have 1: "set ?rows \<subseteq> set db" by (simp add: select_like_def)
  from assms(1) have 2: "distinct (map fst ?rows)"
    by (simp add: select_like_def distinct_map_filter)
  have 3: "set db \<subseteq> set db" by simp
  have 4: "\<forall>r'\<in>set db. nodes fs (fst r') = nodes fs (fst r')" by simp
  have 5: "\<forall>r'\<in>set db - set db. purge_safe sha256 fs db r'" by simp
  from Purge_loop_safe [OF assms(1) run 1 2 3 4 5] assms(3,4) show ?thesis by blast
qed

lemma Purge_run_A:
  "Purge toy_sha256 False fs_ab db_scenario_A ''/a'' =
     (None, [PurgingFile ''/a/x.txt''],
      fs_ab\<lparr>nodes := (nodes fs_ab)(''/a/x.txt'' := None)\<rparr>, [(''/b/x.txt'', Some ''c'')])"
  by (simp add: eval_simps HashFile_blocks fs_ab_def db_scenario_A_def upt_rec)

lemma Purge_run_B:
  "Purge toy_sha256 False fs_ab db_scenario_B ''/a'' =
     (None, [RefuseSameDirectory ''/a/y.txt'', RefuseSameDirectory ''/a/z.txt''],
      fs_ab, db_scenario_B)"
  by (simp add: eval_simps HashFile_blocks fs_ab_def db_scenario_B_def upt_rec)

lemma HashFile_no_PurgingFile: "PurgingFile p \<notin> set (fst (HashFile sha256 fs q))"
  by (auto simp: HashFile_events split: option.splits node.splits)

lemma Purge_stale_no_PurgingFile:
  "Purge_stale sha256 fs rows die = (ev, res) \<Longrightarrow> PurgingFile p \<notin> set ev"
proof (induction rows arbitrary: die ev res)
  case Nil
  then show ?case by simp
next
  case (Cons x rows)
  obtain ev2 r2 where hf: "HashFile sha256 fs (fst x) = (ev2, r2)"
    by (cases "HashFile sha256 fs (fst x)")
  with HashFile_no_PurgingFile [of p sha256 fs "fst x"] have e2: "PurgingFile p \<notin> set ev2"
    by simp
  show ?case
  proof (cases r2)
    case (Inl e)
    with Cons.prems hf e2 show ?thesis by (auto simp: Let_def split: if_splits)
  next
    case (Inr theHash)
    let ?die = "die \<or> os_path_islink fs (fst x) \<or> (falsy theHash \<or> snd x \<noteq> theHash)"
    obtain ev4 r4 where rec: "Purge_stale sha256 fs rows ?die = (ev4, r4)"
      by (cases "Purge_stale sha256 fs rows ?die")
    from Cons.IH [OF rec] have "PurgingFile p \<notin> set ev4" .
    with Cons.prems hf Inr rec e2 show ?thesis
      by (auto simp: Let_def split: if_splits)
  qed
qed

lemma Purge_stale_True_logged:
  "Purge_stale sha256 fs rows die = (ev, Inr True) \<Longrightarrow> die \<or> ev \<noteq> []"
proof (induction rows arbitrary: die ev)
  case Nil
  then show ?case by simp
next
  case (Cons x rows)
  obtain ev2 r2 where hf: "HashFile sha256 fs (fst x) = (ev2, r2)"
    by (cases "HashFile sha256 fs (fst x)")
  with Cons.prems obtain theHash where r2: "r2 = Inr theHash"
    by (cases r2) (auto simp: Let_def)
  let ?die = "die \<or> os_path_islink fs (fst x) \<or> (falsy theHash \<or> snd x \<noteq> theHash)"
  from Cons.prems hf r2 obtain ev4 where
    rec: "Purge_stale sha256 fs rows ?die = (ev4, Inr True)"
    by (cases "Purge_stale sha256 fs rows ?die") (auto simp: Let_def)
  from Cons.IH [OF rec] have "?die \<or> ev4 \<noteq> []" .
  with Cons.prems hf r2 rec show ?case
    by (auto simp: Let_def split: if_splits)
qed


lemma Purge_step_purging:
  assumes "Purge_step sha256 d rp r fs db = (x, ev, fs', db')"
      and "PurgingFile (fst r) \<in> set ev"
  shows "(\<forall>m\<in>set (select_hash db (snd r)). not_stale sha256 fs m)
         \<and> 2 \<le> length (select_hash db (snd r)) \<and> Purge_count db r = 1
         \<and> (if d then x = None \<and> fs' = fs \<and> db' = db
             else db' = delete_path db (fst r)
                  \<and> ((x = None \<and> os_remove fs (fst r) = Inr fs')
                      \<or> (fs' = fs \<and> (\<exists>e. x = Some e \<and> os_remove fs (fst r) = Inl e))))"
proof (cases "Purge_stale sha256 fs (select_hash db (snd r)) False")
  case (Pair ev0 res)
  from Pair have np: "PurgingFile (fst r) \<notin> set ev0"
    by (rule Purge_stale_no_PurgingFile)
  show ?thesis
  proof (cases res)
    case (Inl e)
    with Pair assms np show ?thesis by (auto simp: Purge_step_def Let_def split: if_splits)
  next
    case (Inr die)
    show ?thesis
    proof (cases die)
      case True
      with Inr Pair assms np show ?thesis
        by (auto simp: Purge_step_def Let_def split: if_splits)
    next
      case False
      with Inr Pair have "\<forall>m\<in>set (select_hash db (snd r)). not_stale sha256 fs m"
        using Purge_stale_False [of sha256 fs "select_hash db (snd r)" False ev0] by simp
      with False Inr Pair assms np show ?thesis
        by (auto simp: Purge_step_def Let_def split: if_splits sum.splits)
    qed
  qed
qed

lemma Purge_step_logged:
  assumes "Purge_step sha256 d rp r fs db = (None, ev, fs', db')"
  shows "PurgingFile (fst r) \<in> set ev \<or> (ev \<noteq> [] \<and> fs' = fs \<and> db' = db)"
proof (cases "Purge_stale sha256 fs (select_hash db (snd r)) False")
  case (Pair ev0 res)
  show ?thesis
  proof (cases res)
    case (Inl e)
    with Pair assms show ?thesis by (auto simp: Purge_step_def Let_def split: if_splits)
  next
    case (Inr die)
    show ?thesis
    proof (cases die)
      case True
      with Inr Pair have "ev0 \<noteq> []"
        using Purge_stale_True_logged [of sha256 fs "select_hash db (snd r)" False ev0] by simp
      with True Inr Pair assms show ?thesis
        by (auto simp: Purge_step_def Let_def split: if_splits)
    next
      case False
      with Inr Pair assms show ?thesis
        by (auto simp: Purge_step_def Let_def split: if_splits sum.splits)
    qed
  qed
qed

lemma not_stale_isfile:
  assumes "not_stale sha256 fs r"
  shows "os_path_isfile fs (fst r) \<and> (\<exists>bs. nodes fs (fst r) = Some (Regular bs True))"
proof -
  from assms have nl: "\<not> os_path_islink fs (fst r)"
    and hv: "snd (HashFile sha256 fs (fst r)) = Inr (snd r)" and nf: "\<not> falsy (snd r)"
    by (simp_all add: not_stale_def)
  from hv nf HashFile_value [of sha256 fs "fst r"]
  obtain bs where st: "stat fs (fst r) = Some (Regular bs True)"
    by (auto simp: falsy_def split: option.splits node.splits if_splits)
  then have "os_path_isfile fs (fst r)" by (simp add: os_path_isfile_def)
  moreover from nl st have "nodes fs (fst r) = Some (Regular bs True)"
    by (simp add: stat_not_link)
  ultimately show ?thesis by blast
qed

lemma resolve_after_remove:
  "resolve (ns(p := None)) k q = Some nd \<Longrightarrow> resolve ns k q = Some nd"
  by (induction k arbitrary: q) (auto split: option.splits node.splits if_splits)


lemma stat_after_remove:
  "os_remove fs p = Inr fs' \<Longrightarrow> stat fs' q = Some nd \<Longrightarrow> stat fs q = Some nd"
  using os_remove_nodes [of fs p fs'] resolve_after_remove [of "nodes fs" p _ q nd]
  by (simp add: stat_def del: resolve.simps)




lemma Purge_step_denied:
  "Purge_step toy_sha256 False ''/a'' (''/a/x.txt'', Some ''c'') fs_denied db_two_pairs =
     (Some (PermissionError ''/a/x.txt''), [PurgingFile ''/a/x.txt''], fs_denied,
      [(''/b/x.txt'', Some ''c''), (''/a/y.txt'', Some ''d''), (''/b/y.txt'', Some ''d'')])"
  by (simp add: eval_simps HashFile_blocks fs_denied_def db_two_pairs_def upt_rec)


lemma Integrity_loop_dry: "snd (snd (Integrity_loop sha256 True fs rows db)) = db"
proof (induction rows)
  case Nil
  then show ?case by simp
next
  case (Cons r rows)
  obtain x1 ev1 db1 where st: "Integrity_step sha256 True fs r db = (x1, ev1, db1)"
    by (cases "Integrity_step sha256 True fs r db") auto
  with Integrity_step_no_exn [of sha256 True fs r db] Integrity_step_dry [of sha256 fs r db]
  have "x1 = None" and "db1 = db" by simp_all
  with st Cons.IH show ?case
    by (cases "Integrity_loop sha256 True fs rows db") auto
qed

lemma Integrity_loop_events_eq:
  "fst (snd (Integrity_loop sha256 d fs rows db))
     = fst (snd (Integrity_loop sha256 d' fs rows db'))"
proof (induction rows arbitrary: db db')
  case Nil
  then show ?case by simp
next
  case (Cons r rows)
  obtain x1 ev1 db1 where st: "Integrity_step sha256 d fs r db = (x1, ev1, db1)"
    by (cases "Integrity_step sha256 d fs r db") auto
  obtain x2 ev2 db2 where st': "Integrity_step sha256 d' fs r db' = (x2, ev2, db2)"
    by (cases "Integrity_step sha256 d' fs r db'") auto
  from st st' Integrity_step_no_exn [of sha256 d fs r db]
    Integrity_step_no_exn [of sha256 d' fs r db']
    Integrity_step_events [of sha256 d fs r db d' db']
  have "x1 = None" "x2 = None" "ev1 = ev2" by simp_all
  with st st' Cons.IH [of db1 db2] show ?case
    by (cases "Integrity_loop sha256 d fs rows db1";
        cases "Integrity_loop sha256 d' fs rows db2") auto
qed

lemma Remove_loop_dry: "snd (Remove_loop True rows db) = db"
  by (induction rows) (auto split: prod.splits)

lemma Remove_loop_events:
  "filter (\<lambda>e. e \<noteq> JustKidding) (fst (Remove_loop True rows db))
     = fst (Remove_loop False rows db')"
proof (induction rows arbitrary: db db')
  case Nil
  then show ?case by simp
next
  case (Cons r rows)
  obtain ev1 d1 where a: "Remove_loop True rows db = (ev1, d1)"
    by (cases "Remove_loop True rows db")
  obtain ev2 d2 where b: "Remove_loop False rows (delete_path db' (fst r)) = (ev2, d2)"
    by (cases "Remove_loop False rows (delete_path db' (fst r))")
  from Cons.IH [of db "delete_path db' (fst r)"] a b
  have "filter (\<lambda>e. e \<noteq> JustKidding) ev1 = ev2" by simp
  with a b show ?case by simp
qed

lemma HashFile_no_JustKidding:
  "filter (\<lambda>e. e \<noteq> JustKidding) (fst (HashFile sha256 fs q)) = fst (HashFile sha256 fs q)"
  by (auto simp: HashFile_events split: option.splits node.splits)

lemma Purge_stale_no_JustKidding:
  "Purge_stale sha256 fs rows die = (ev, res) \<Longrightarrow> filter (\<lambda>e. e \<noteq> JustKidding) ev = ev"
proof (induction rows arbitrary: die ev res)
  case Nil
  then show ?case by simp
next
  case (Cons x rows)
  obtain ev2 r2 where hf: "HashFile sha256 fs (fst x) = (ev2, r2)"
    by (cases "HashFile sha256 fs (fst x)")
  with HashFile_no_JustKidding [of sha256 fs "fst x"]
  have e2: "filter (\<lambda>e. e \<noteq> JustKidding) ev2 = ev2" by simp
  show ?case
  proof (cases r2)
    case (Inl e)
    with Cons.prems hf e2 show ?thesis by (auto simp: Let_def split: if_splits)
  next
    case (Inr theHash)
    let ?die = "die \<or> os_path_islink fs (fst x) \<or> (falsy theHash \<or> snd x \<noteq> theHash)"
    obtain ev4 r4 where rec: "Purge_stale sha256 fs rows ?die = (ev4, r4)"
      by (cases "Purge_stale sha256 fs rows ?die")
    from Cons.IH [OF rec] have "filter (\<lambda>e. e \<noteq> JustKidding) ev4 = ev4" .
    with Cons.prems hf Inr rec e2 show ?thesis
      by (auto simp: Let_def split: if_splits)
  qed
qed

lemma Purge_step_decisions:
  "filter (\<lambda>e. e \<noteq> JustKidding) (fst (snd (Purge_step sha256 True rp r fs db)))
     = fst (snd (Purge_step sha256 False rp r fs db))"
proof (cases "Purge_stale sha256 fs (select_hash db (snd r)) False")
  case (Pair ev0 res)
  then have "filter (\<lambda>e. e \<noteq> JustKidding) ev0 = ev0"
    by (rule Purge_stale_no_JustKidding)
  with Pair show ?thesis
    by (auto simp: Purge_step_def Let_def split: sum.splits)
qed

lemma Purge_loop_dry: "snd (snd (Purge_loop sha256 True rp rows fs db)) = (fs, db)"
proof (induction rows)
  case Nil
  then show ?case by simp
next
  case (Cons r rows)
  obtain x1 ev1 fs1 db1 where st: "Purge_step sha256 True rp r fs db = (x1, ev1, fs1, db1)"
    by (cases "Purge_step sha256 True rp r fs db") auto
  with Purge_step_dry [of sha256 rp r fs db] have "fs1 = fs" and "db1 = db" by simp_all
  with st Cons.IH show ?case
    by (cases x1; cases "Purge_loop sha256 True rp rows fs db") auto
qed

lemma run_command_dry: "snd (snd (run_command sha256 True c fs db)) = (fs, db)"
proof (cases c)
  case Check
  with Integrity_loop_dry [of sha256 fs "order_by_path db" db] show ?thesis
    by (cases "Integrity sha256 True fs db") (simp add: run_command_def Integrity_def)
next
  case (PurgeCmd p)
  with Purge_loop_dry [of sha256 p _ fs db] show ?thesis
    by (simp add: run_command_def Purge_def)
next
  case (RemoveCmd p)
  with Remove_loop_dry [of "select_like db (p @ ''%'')" db] show ?thesis
    by (cases "Remove_loop True (select_like db (p @ ''%'')) db")
       (simp add: run_command_def Remove_def)
qed

lemma run_commands_dry: "snd (snd (run_commands sha256 True cs fs db)) = (fs, db)"
proof (induction cs)
  case Nil
  then show ?case by simp
next
  case (Cons c cs)
  obtain x1 ev1 fs1 db1 where st: "run_command sha256 True c fs db = (x1, ev1, fs1, db1)"
    by (cases "run_command sha256 True c fs db") auto
  with run_command_dry [of sha256 c fs db] have "fs1 = fs" and "db1 = db" by simp_all
  with st Cons.IH show ?case
    by (cases x1; cases "run_commands sha256 True cs fs db") auto
qed

lemma Database_write_keeps_distinct:
  assumes "distinct (map fst db)"
  shows "distinct (map fst (snd (Database_write db theHash thePath)))"
proof (cases "select_path db thePath = []")
  case True
  then have "thePath \<notin> fst ` set db"
    by (auto simp: select_path_def filter_empty_conv)
  with True assms show ?thesis
    by (simp add: Database_write_def)
next
  case False
  with assms show ?thesis
    by (simp add: Database_write_def Let_def update_hash_paths)
qed

lemma Remove_deletes_like:
  "snd (Remove_loop False rows db) = filter (\<lambda>r. fst r \<notin> fst ` set rows) db"
proof (induction rows arbitrary: db)
  case Nil
  then show ?case by simp
next
  case (Cons r rows)
  from Cons.IH [of "delete_path db (fst r)"] show ?case
    by (cases "Remove_loop False rows (delete_path db (fst r))")
       (auto simp: delete_path_def intro: filter_cong)
qed






lemma Integrity_loop_FileChanged:
  "Integrity_loop sha256 d fs rows db = (x, ev, db') \<Longrightarrow> FileChanged p h h' \<in> set ev \<Longrightarrow>
   (p, h) \<in> set rows \<and> h \<noteq> h' \<and> snd (HashFile sha256 fs p) = Inr h'"
proof (induction rows arbitrary: db x ev)
  case Nil
  then show ?case by simp
next
  case (Cons r rows)
  obtain x1 ev1 db1 where st: "Integrity_step sha256 d fs r db = (x1, ev1, db1)"
    by (cases "Integrity_step sha256 d fs r db") auto
  with Integrity_step_no_exn [of sha256 d fs r db] have x1: "x1 = None" by simp
  from Cons.prems(1) st x1
  obtain x2 ev2 where lp: "Integrity_loop sha256 d fs rows db1 = (x2, ev2, db')"
    and ev: "ev = ev1 @ ev2"
    by (cases "Integrity_loop sha256 d fs rows db1") auto
  show ?case
  proof (cases "FileChanged p h h' \<in> set ev1")
    case True
    have "FileChanged p h h' \<notin> set (fst (HashFile sha256 fs (fst r)))"
      by (auto simp: HashFile_events split: option.splits node.splits)
    with True st have "r = (p, h) \<and> h \<noteq> h' \<and> snd (HashFile sha256 fs p) = Inr h'"
      by (cases "HashFile sha256 fs (fst r)")
         (auto simp: Integrity_step_def split: if_splits sum.splits)
    then show ?thesis by simp
  next
    case False
    with Cons.prems(2) ev have "FileChanged p h h' \<in> set ev2" by simp
    with Cons.IH [OF lp] show ?thesis by simp
  qed
qed

lemma main_run_denied_y:
  "main toy_sha256 False [PurgeCmd ''/a''] fs_denied_y db_two_pairs =
     (Some (PermissionError ''/a/y.txt''),
      [PurgingFile ''/a/x.txt'', PurgingFile ''/a/y.txt''],
      fs_denied_y\<lparr>nodes := (nodes fs_denied_y)(''/a/x.txt'' := None)\<rparr>, db_two_pairs)"
  by (simp add: main_def eval_simps HashFile_blocks fs_denied_y_def db_two_pairs_def upt_rec)



section \<open>The claims\<close>

subsection \<open>C3: what \<open>DupCheck\<close> prints\<close>

text \<open>
  C3 says that the duplicate report holds every group of two or more records that
  share a digest, the group of the largest digest included. \<open>DupCheck\<close> prints a
  group only when a record with another digest follows it, and prints nothing
  after its loop: the last group in digest order is never printed. So a table
  whose records all carry one digest, however many they are, gives an empty
  report.
\<close>

theorem DupCheck_single_group_silent:
  "\<forall>r\<in>set db. snd r = Some h \<Longrightarrow> DupCheck db = []"
proof -
  assume "\<forall>r\<in>set db. snd r = Some h"
  then have all: "\<forall>r\<in>set (order_by_hash db). snd r = Some h"
    by (simp add: order_by_hash_def)
  show ?thesis
  proof (cases "order_by_hash db")
    case Nil
    then show ?thesis by (simp add: DupCheck_def)
  next
    case (Cons r rs)
    with all have "snd r = Some h" and "\<forall>r\<in>set rs. snd r = Some h" by auto
    then show ?thesis
      using DupCheck_loop_same [of rs "Some h"] by (auto simp: DupCheck_def Cons)
  qed
qed

theorem DupCheck_single_group_silent_witness:
  "snd (''/a/x.txt'', Some ''H'') = Some ''H'' \<and> snd (''/b/x.txt'', Some ''H'') = Some ''H''
   \<and> DupCheck [(''/a/x.txt'', Some ''H''), (''/b/x.txt'', Some ''H'')] = []"
  using DupCheck_single_group_silent
    [of "[(''/a/x.txt'', Some ''H''), (''/b/x.txt'', Some ''H'')]" "''H''"]
  by simp

subsection \<open>C2: the scope of \<open>Remove\<close>\<close>

text \<open>
  C2 says that \<open>Remove\<close> deletes the records located under the path by the
  segment-wise containment of \<open>sameDir\<close>, not by a raw string prefix. \<open>Remove\<close>
  never calls \<open>sameDir\<close>: it deletes every record its \<open>LIKE\<close> query returns.
  With the records \<open>/old/a.txt\<close> and \<open>/older/b.txt\<close>, removing \<open>/old\<close> deletes
  both, though \<open>sameDir\<close> places only the first under \<open>/old\<close>. (The other
  half of the claim holds: \<open>Remove\<close> never touches the file system.)
\<close>

theorem Remove_scope_is_raw_prefix:
  "sameDir ''/old'' ''/old/a.txt'' \<and> \<not> sameDir ''/old'' ''/older/b.txt''
   \<and> Remove False db_old ''/old''
       = ([RemovingFromDatabase ''/old/a.txt'', RemovingFromDatabase ''/older/b.txt''], [])
   \<and> fst (snd (snd (run_command toy_sha256 False (RemoveCmd ''/old'') fs_changed db_old)))
       = fs_changed"
  by (simp add: eval_simps db_old_def upt_rec)

subsection \<open>C7: a second \<open>Integrity\<close> run changes nothing\<close>

text \<open>
  C7: when \<open>Integrity\<close> has run with \<open>DRY_RUN\<close> false and the file system is the
  same, a second run raises nothing, leaves the table as it is, and reports no
  changed and no missing file: the only records it can log are \<open>HashFile\<close>'s
  warnings for files it cannot read. Every update follows a \<open>FileChanged\<close> line
  and every deletion a \<open>NoLongerExists\<close> warning, so there is neither.
\<close>

theorem Integrity_idempotent:
  assumes "Integrity sha256 False fs db = (x, ev, db1)"
  shows "fst (Integrity sha256 False fs db1) = None
         \<and> snd (snd (Integrity sha256 False fs db1)) = db1
         \<and> (\<forall>e\<in>set (fst (snd (Integrity sha256 False fs db1))). \<exists>p. e = UnableToRead p)"
proof -
  from assms have v: "\<forall>r\<in>set db1. os_path_isfile fs (fst r)
      \<and> snd (HashFile sha256 fs (fst r)) = Inr (snd r)"
    by (rule Integrity_all_verified)
  then have eq: "Integrity sha256 False fs db1 =
      (None, concat (map (\<lambda>r. fst (HashFile sha256 fs (fst r))) (order_by_path db1)), db1)"
    by (rule Integrity_on_verified)
  from v have "\<forall>r\<in>set (order_by_path db1). os_path_isfile fs (fst r)"
    by (simp add: order_by_path_def)
  then have "\<forall>e\<in>set (concat (map (\<lambda>r. fst (HashFile sha256 fs (fst r))) (order_by_path db1))).
      \<exists>p. e = UnableToRead p"
    using HashFile_events_isfile by fastforce
  with eq show ?thesis by simp
qed

theorem Integrity_idempotent_witness:
  "Integrity toy_sha256 False fs_changed db_changed =
     (None,
      [NoLongerExists ''/a/gone.txt'', UnableToRead ''/a/locked.txt'',
       FileChanged ''/a/locked.txt'' (Some ''s'') None,
       FileChanged ''/a/x.txt'' (Some ''old'') (Some ''new'')],
      [(''/a/x.txt'', Some ''new''), (''/a/locked.txt'', None)])
   \<and> fst (Integrity toy_sha256 False fs_changed
            [(''/a/x.txt'', Some ''new''), (''/a/locked.txt'', None)]) = None
   \<and> snd (snd (Integrity toy_sha256 False fs_changed
            [(''/a/x.txt'', Some ''new''), (''/a/locked.txt'', None)]))
       = [(''/a/x.txt'', Some ''new''), (''/a/locked.txt'', None)]"
  using Integrity_idempotent [OF Integrity_first_run] Integrity_first_run by simp

subsection \<open>C8: \<open>HashFile\<close>\<close>




subsection \<open>C10: \<open>Integrity\<close> and a file that cannot be read\<close>

text \<open>
  C10 says that \<open>Integrity\<close> reports every record whose file exists but cannot
  be read as changed, and replaces what the record stores. For such a file
  \<open>HashFile\<close> returns \<open>None\<close>, and \<open>None\<close> is what \<open>HashDir\<close> and an earlier
  \<open>Integrity\<close> have stored for it: the comparison \<open>None != None\<close> is false, nothing
  is printed and the record stays as it is.
\<close>

theorem Integrity_unreadable_unreported:
  "stat fs_changed ''/a/locked.txt'' = Some (Regular ''s'' False)
   \<and> Integrity toy_sha256 False fs_changed db_locked_none
       = (None, [UnableToRead ''/a/locked.txt''], db_locked_none)"
  by (simp add: eval_simps fs_changed_def db_locked_none_def)

text \<open>
  C10, amended: let the file of a path exist and be a regular file that cannot
  be read. For a record of the path that stores a digest, \<open>Integrity\<close> prints the
  file as changed, from the stored digest to \<open>None\<close>, and when \<open>DRY_RUN\<close> is
  false the table then holds \<open>None\<close> for the path and the stored digest no more.
  When the path's records store \<open>None\<close> already, \<open>Integrity\<close> prints no change for
  the path and the table holds \<open>None\<close> for it as before.
\<close>

theorem Integrity_unreadable_file:
  assumes "stat fs p = Some (Regular bs False)"
      and "Integrity sha256 DRY_RUN fs db = (x, ev, db')"
  shows "(\<forall>d. (p, Some d) \<in> set db \<longrightarrow>
            FileChanged p (Some d) None \<in> set ev
            \<and> (\<not> DRY_RUN \<longrightarrow> (p, None) \<in> set db' \<and> (p, Some d) \<notin> set db'))
         \<and> ((p, None) \<in> set db \<and> (\<forall>h. (p, h) \<in> set db \<longrightarrow> h = None) \<longrightarrow>
            (\<forall>h h'. FileChanged p h h' \<notin> set ev) \<and> (p, None) \<in> set db')"
proof -
  from assms(1) have isf: "os_path_isfile fs p" by (simp add: os_path_isfile_def)
  from assms(1) have hv: "snd (HashFile sha256 fs p) = Inr None" by (simp add: HashFile_value)
  note run = assms(2) [unfolded Integrity_def]
  have real: "(p, None) \<in> set db' \<and> (\<forall>h. (p, h) \<in> set db' \<longrightarrow> h = None)"
    if "\<not> DRY_RUN" and "p \<in> fst ` set db"
  proof -
    from that(1) assms(2) have r: "Integrity sha256 False fs db = (x, ev, db')" by simp
    then have v: "\<forall>r'\<in>set db'. os_path_isfile fs (fst r')
        \<and> snd (HashFile sha256 fs (fst r')) = Inr (snd r')"
      by (rule Integrity_all_verified)
    from r [unfolded Integrity_def] isf that(2) have "p \<in> fst ` set db'"
      by (rule Integrity_loop_keeps_path)
    then obtain h where h: "(p, h) \<in> set db'" by auto
    from v hv have all: "\<forall>h. (p, h) \<in> set db' \<longrightarrow> h = None" by fastforce
    with h show ?thesis by blast
  qed
  have 1: "FileChanged p (Some d) None \<in> set ev
           \<and> (\<not> DRY_RUN \<longrightarrow> (p, None) \<in> set db' \<and> (p, Some d) \<notin> set db')"
    if m: "(p, Some d) \<in> set db" for d
  proof -
    from m have mem: "(p, Some d) \<in> set (order_by_path db)" by (simp add: order_by_path_def)
    have "fst (snd (Integrity_step sha256 DRY_RUN fs (p, Some d) [])) =
            fst (HashFile sha256 fs p) @ [FileChanged p (Some d) None]"
      using isf hv by (cases "HashFile sha256 fs p") (auto simp: Integrity_step_def)
    with Integrity_loop_events [OF run mem, of "[]"]
    have a: "FileChanged p (Some d) None \<in> set ev" by simp
    from m have "p \<in> fst ` set db" by force
    with real have "\<not> DRY_RUN \<longrightarrow> (p, None) \<in> set db' \<and> (p, Some d) \<notin> set db'"
      by fastforce
    with a show ?thesis by simp
  qed
  have 2: "(\<forall>h h'. FileChanged p h h' \<notin> set ev) \<and> (p, None) \<in> set db'"
    if n: "(p, None) \<in> set db \<and> (\<forall>h. (p, h) \<in> set db \<longrightarrow> h = None)"
  proof -
    have a: "FileChanged p h h' \<notin> set ev" for h h'
    proof
      assume "FileChanged p h h' \<in> set ev"
      with run have "(p, h) \<in> set (order_by_path db)" and ne: "h \<noteq> h'"
        and "snd (HashFile sha256 fs p) = Inr h'"
        using Integrity_loop_FileChanged by blast+
      with n hv have "h = None" and "h' = None" by (simp_all add: order_by_path_def)
      with ne show False by simp
    qed
    have b: "(p, None) \<in> set db'"
    proof (cases DRY_RUN)
      case True
      with assms(2) Integrity_loop_dry [of sha256 fs "order_by_path db" db]
      have "db' = db" by (simp add: Integrity_def)
      with n show ?thesis by simp
    next
      case False
      from n have "p \<in> fst ` set db" by force
      with False real show ?thesis by blast
    qed
    from a b show ?thesis by blast
  qed
  from 1 2 show ?thesis by blast
qed

theorem Integrity_unreadable_file_witness:
  "stat fs_changed ''/a/locked.txt'' = Some (Regular ''s'' False)
   \<and> (''/a/locked.txt'', Some ''s'') \<in> set db_changed
   \<and> FileChanged ''/a/locked.txt'' (Some ''s'') None
        \<in> set (fst (snd (Integrity toy_sha256 False fs_changed db_changed)))
   \<and> (''/a/locked.txt'', None) \<in> set (snd (snd (Integrity toy_sha256 False fs_changed db_changed)))
   \<and> (''/a/locked.txt'', Some ''s'')
        \<notin> set (snd (snd (Integrity toy_sha256 False fs_changed db_changed)))
   \<and> (''/a/locked.txt'', None) \<in> set db_locked_none
   \<and> FileChanged ''/a/locked.txt'' None None
        \<notin> set (fst (snd (Integrity toy_sha256 False fs_changed db_locked_none)))
   \<and> (''/a/locked.txt'', None)
        \<in> set (snd (snd (Integrity toy_sha256 False fs_changed db_locked_none)))"
proof -
  have 1: "(''/a/locked.txt'', Some ''s'') \<in> set db_changed"
    by (simp add: db_changed_def)
  have 2: "stat fs_changed ''/a/locked.txt'' = Some (Regular ''s'' False)"
    by (simp add: stat_def fs_changed_def)
  have run2: "Integrity toy_sha256 False fs_changed db_locked_none
       = (None, [UnableToRead ''/a/locked.txt''], db_locked_none)"
    by (simp add: eval_simps fs_changed_def db_locked_none_def)
  have 3: "(''/a/locked.txt'', None) \<in> set db_locked_none"
    and 4: "\<forall>h. (''/a/locked.txt'', h) \<in> set db_locked_none \<longrightarrow> h = None"
    by (simp_all add: db_locked_none_def)
  from Integrity_unreadable_file [OF 2 Integrity_first_run] 1
  have a: "FileChanged ''/a/locked.txt'' (Some ''s'') None
      \<in> set [NoLongerExists ''/a/gone.txt'', UnableToRead ''/a/locked.txt'',
               FileChanged ''/a/locked.txt'' (Some ''s'') None,
               FileChanged ''/a/x.txt'' (Some ''old'') (Some ''new'')]"
    by blast
  from Integrity_unreadable_file [OF 2 run2] 3 4
  have b: "FileChanged ''/a/locked.txt'' None None \<notin> set [UnableToRead ''/a/locked.txt'']
           \<and> (''/a/locked.txt'', None) \<in> set db_locked_none"
    by blast
  from 1 2 3 a b Integrity_first_run run2 show ?thesis by simp
qed

subsection \<open>C1: what holds of every path \<open>Purge\<close> deletes\<close>

text \<open>
  C1: let the index hold at most one row per path (\<open>Database.write\<close> inserts a
  path only when it has no row). Whenever a run of \<open>Purge\<close> takes the row of a
  path \<open>p\<close> out of the index, then on the file system and index the run started
  from (a) \<open>HashFile\<close> gives for \<open>p\<close> the stored digest, (b) every other row
  with that digest names a path that is no symbolic link and for which
  \<open>HashFile\<close> gives its stored digest, and (c) no other row with that digest
  names a path in the directory of \<open>p\<close>. The file of a path is removed only
  after its row, so this covers every path deleted from disk.
\<close>

theorem Purge_safety:
  assumes "distinct (map fst db)"
      and "Purge sha256 DRY_RUN fs db theRealPath = (x, ev, fs', db')"
      and "(p, h) \<in> set db" and "p \<notin> fst ` set db'"
  shows "snd (HashFile sha256 fs p) = Inr h \<and> \<not> falsy h \<and> \<not> os_path_islink fs p
         \<and> (\<forall>(q, hq)\<in>set db. hq = h \<and> q \<noteq> p \<longrightarrow>
               snd (HashFile sha256 fs q) = Inr hq \<and> \<not> os_path_islink fs q
               \<and> dirname q \<noteq> dirname p)"
proof -
  from assms(4) have "(p, h) \<notin> set db'" by force
  with assms(1,2,3) have "purge_safe sha256 fs db (p, h)"
    by (rule Purge_deleted_safe)
  then show ?thesis
    by (auto simp: purge_safe_def not_stale_def)
qed

theorem Purge_safety_witness:
  "distinct (map fst db_scenario_A)
   \<and> (''/a/x.txt'', Some ''c'') \<in> set db_scenario_A
   \<and> ''/a/x.txt'' \<notin> fst ` set (snd (snd (snd (Purge toy_sha256 False fs_ab db_scenario_A ''/a''))))
   \<and> snd (HashFile toy_sha256 fs_ab ''/a/x.txt'') = Inr (Some ''c'')
   \<and> snd (HashFile toy_sha256 fs_ab ''/b/x.txt'') = Inr (Some ''c'')
   \<and> \<not> os_path_islink fs_ab ''/b/x.txt''
   \<and> dirname ''/b/x.txt'' \<noteq> dirname ''/a/x.txt''"
proof -
  have 1: "distinct (map fst db_scenario_A)"
    and 3: "(''/a/x.txt'', Some ''c'') \<in> set db_scenario_A"
    and 4: "''/a/x.txt'' \<notin> fst ` set [(''/b/x.txt'', Some ''c'')]"
    by (simp_all add: db_scenario_A_def)
  from Purge_safety [OF 1 Purge_run_A 3 4] 1 3 4 Purge_run_A
  show ?thesis by (simp add: db_scenario_A_def)
qed

subsection \<open>C5: the count of matches in the same directory\<close>

text \<open>
  C5: for a candidate row, \<open>Purge\<close> counts the rows that store the candidate's
  digest, the candidate's own row among them, whose path \<open>sameDir\<close> places in
  the candidate's directory; one step of its loop changes the index or the file
  system only when that count is exactly 1. And when the index, with at most one
  row per path, holds two rows with one digest whose paths lie in the same
  directory, no run of \<open>Purge\<close> deletes either: both rows are still in the
  index and both paths are on the file system as before.
\<close>

theorem Purge_same_directory_count:
  "(Purge_step sha256 DRY_RUN theRealPath r fs db = (x, ev, fs', db')
      \<and> (db' \<noteq> db \<or> fs' \<noteq> fs)
    \<longrightarrow> length (filter (\<lambda>m. sameDir (fst r) (fst m)) (select_hash db (snd r))) = 1)
   \<and> (distinct (map fst db) \<and> (p1, h) \<in> set db \<and> (p2, h) \<in> set db \<and> p1 \<noteq> p2
      \<and> dirname p1 = dirname p2
      \<and> Purge sha256 DRY_RUN fs db theRealPath = (x2, ev2, fs2, db2)
    \<longrightarrow> (p1, h) \<in> set db2 \<and> (p2, h) \<in> set db2
        \<and> nodes fs2 p1 = nodes fs p1 \<and> nodes fs2 p2 = nodes fs p2)"
proof (rule conjI; rule impI)
  assume "Purge_step sha256 DRY_RUN theRealPath r fs db = (x, ev, fs', db')
      \<and> (db' \<noteq> db \<or> fs' \<noteq> fs)"
  with Purge_step_outcome [of sha256 DRY_RUN theRealPath r fs db x ev fs' db']
  have "Purge_count db r = 1" by blast
  then show "length (filter (\<lambda>m. sameDir (fst r) (fst m)) (select_hash db (snd r))) = 1"
    by (simp add: Purge_count_def)
next
  assume a: "distinct (map fst db) \<and> (p1, h) \<in> set db \<and> (p2, h) \<in> set db \<and> p1 \<noteq> p2
      \<and> dirname p1 = dirname p2
      \<and> Purge sha256 DRY_RUN fs db theRealPath = (x2, ev2, fs2, db2)"
  then have dist: "distinct (map fst db)"
    and run: "Purge sha256 DRY_RUN fs db theRealPath = (x2, ev2, fs2, db2)"
    and m1: "(p1, h) \<in> set db" and m2: "(p2, h) \<in> set db"
    and ne: "p1 \<noteq> p2" and dir: "dirname p1 = dirname p2"
    by simp_all
  have keep: "(p, h) \<in> set db2"
    if "(p, h) \<in> set db" and "(q, h) \<in> set db" and "q \<noteq> p" and "dirname q = dirname p"
    for p q
  proof (rule ccontr)
    assume "(p, h) \<notin> set db2"
    with dist run that(1) have "purge_safe sha256 fs db (p, h)"
      by (rule Purge_deleted_safe)
    with that(2,3,4) show False
      by (auto simp: purge_safe_def)
  qed
  from m1 m2 ne dir have k1: "(p1, h) \<in> set db2" by (intro keep [of p1 p2]) simp_all
  from m1 m2 ne dir have k2: "(p2, h) \<in> set db2" by (intro keep [of p2 p1]) simp_all
  from run have "\<forall>q\<in>fst ` set db2. nodes fs2 q = nodes fs q"
    using Purge_loop_nodes [of sha256 DRY_RUN theRealPath _ fs db x2 ev2 fs2 db2]
    by (simp add: Purge_def)
  moreover from k1 have "p1 \<in> fst ` set db2" by force
  moreover from k2 have "p2 \<in> fst ` set db2" by force
  ultimately have "nodes fs2 p1 = nodes fs p1" and "nodes fs2 p2 = nodes fs p2" by blast+
  with k1 k2
  show "(p1, h) \<in> set db2 \<and> (p2, h) \<in> set db2
        \<and> nodes fs2 p1 = nodes fs p1 \<and> nodes fs2 p2 = nodes fs p2"
    by simp
qed

theorem Purge_same_directory_count_witness:
  "Purge_step toy_sha256 False ''/a'' (''/a/x.txt'', Some ''c'') fs_ab db_scenario_A
     = (None, [PurgingFile ''/a/x.txt''],
        fs_ab\<lparr>nodes := (nodes fs_ab)(''/a/x.txt'' := None)\<rparr>, [(''/b/x.txt'', Some ''c'')])
   \<and> [(''/b/x.txt'', Some ''c'')] \<noteq> db_scenario_A
   \<and> length (filter (\<lambda>m. sameDir ''/a/x.txt'' (fst m))
               (select_hash db_scenario_A (Some ''c''))) = 1
   \<and> distinct (map fst db_scenario_B)
   \<and> (''/a/y.txt'', Some ''d'') \<in> set db_scenario_B
   \<and> (''/a/z.txt'', Some ''d'') \<in> set db_scenario_B
   \<and> dirname ''/a/y.txt'' = dirname ''/a/z.txt''
   \<and> (''/a/y.txt'', Some ''d'')
        \<in> set (snd (snd (snd (Purge toy_sha256 False fs_ab db_scenario_B ''/a''))))
   \<and> (''/a/z.txt'', Some ''d'')
        \<in> set (snd (snd (snd (Purge toy_sha256 False fs_ab db_scenario_B ''/a''))))"
proof -
  have step: "Purge_step toy_sha256 False ''/a'' (''/a/x.txt'', Some ''c'') fs_ab db_scenario_A
     = (None, [PurgingFile ''/a/x.txt''],
        fs_ab\<lparr>nodes := (nodes fs_ab)(''/a/x.txt'' := None)\<rparr>, [(''/b/x.txt'', Some ''c'')])"
    by (simp add: eval_simps HashFile_blocks fs_ab_def db_scenario_A_def upt_rec)
  have ne: "[(''/b/x.txt'', Some ''c'')] \<noteq> db_scenario_A"
    by (simp add: db_scenario_A_def)
  have b: "distinct (map fst db_scenario_B)"
    "(''/a/y.txt'', Some ''d'') \<in> set db_scenario_B"
    "(''/a/z.txt'', Some ''d'') \<in> set db_scenario_B"
    "''/a/y.txt'' \<noteq> ''/a/z.txt''"
    "dirname ''/a/y.txt'' = dirname ''/a/z.txt''"
    by (simp_all add: db_scenario_B_def dirname_def)
  note inst = Purge_same_directory_count
    [of toy_sha256 False "''/a''" "(''/a/x.txt'', Some ''c'')" fs_ab db_scenario_A
       None "[PurgingFile ''/a/x.txt'']"
       "fs_ab\<lparr>nodes := (nodes fs_ab)(''/a/x.txt'' := None)\<rparr>"
       "[(''/b/x.txt'', Some ''c'')]"
       "''/a/y.txt''" "Some ''d''" "''/a/z.txt''" None
       "[RefuseSameDirectory ''/a/y.txt'', RefuseSameDirectory ''/a/z.txt'']"
       fs_ab db_scenario_B]
  from inst step ne
  have 1: "length (filter (\<lambda>m. sameDir ''/a/x.txt'' (fst m))
               (select_hash db_scenario_A (Some ''c''))) = 1"
    by simp
  from inst b Purge_run_B
  have 2: "(''/a/y.txt'', Some ''d'') \<in> set db_scenario_B
           \<and> (''/a/z.txt'', Some ''d'') \<in> set db_scenario_B"
    by simp
  show ?thesis
    using step ne 1 2 b Purge_run_B by simp
qed

subsection \<open>C9: the row goes before the file\<close>

text \<open>
  C9 says that, because \<open>Purge\<close> deletes the row before it calls \<open>os.remove\<close>,
  a failing \<open>os.remove\<close> leaves the index without a record for a file that
  still exists. The exception of \<open>os.remove\<close> is caught nowhere, so \<open>main\<close> never
  calls \<open>close()\<close> and nothing of the run is committed. With two candidates, the
  second of which cannot be removed, the stored index after the run still has
  the row of \<open>/a/y.txt\<close>, whose file exists, and also the row of \<open>/a/x.txt\<close>,
  whose file the run has removed.
\<close>

theorem Purge_failure_not_persisted:
  "fst (main toy_sha256 False [PurgeCmd ''/a''] fs_denied_y db_two_pairs)
     = Some (PermissionError ''/a/y.txt'')
   \<and> os_path_isfile
        (fst (snd (snd (main toy_sha256 False [PurgeCmd ''/a''] fs_denied_y db_two_pairs))))
        ''/a/y.txt''
   \<and> (''/a/y.txt'', Some ''d'')
        \<in> set (snd (snd (snd (main toy_sha256 False [PurgeCmd ''/a''] fs_denied_y db_two_pairs))))
   \<and> \<not> os_path_exists
        (fst (snd (snd (main toy_sha256 False [PurgeCmd ''/a''] fs_denied_y db_two_pairs))))
        ''/a/x.txt''
   \<and> (''/a/x.txt'', Some ''c'')
        \<in> set (snd (snd (snd (main toy_sha256 False [PurgeCmd ''/a''] fs_denied_y db_two_pairs))))"
  by (simp add: main_run_denied_y)
     (simp add: os_path_isfile_def os_path_exists_def stat_def fs_denied_y_def db_two_pairs_def)

text \<open>
  C9, amended: when \<open>Purge\<close>, with \<open>DRY_RUN\<close> false, prints \<open>Purging file\<close> for a
  candidate, it deletes the candidate's row in the connection's view of the
  index and then calls \<open>os.remove\<close>. When \<open>os.remove\<close> raises, its exception
  leaves \<open>Purge\<close> with that row deleted in the connection's view and the file
  system as it was, the file still a regular file; when it returns, the file is
  gone as well. A run of \<open>main\<close> that an exception ends stores nothing: the index
  is stored as it was before the run, and so still holds the record of the file
  that could not be removed and the records of the files removed before it. A
  run that no exception ends stores the connection's view.
\<close>

theorem Purge_failure_rolls_back:
  "(Purge_step sha256 False theRealPath r fs db = (x, ev, fs', db')
      \<and> PurgingFile (fst r) \<in> set ev \<and> r \<in> set db
    \<longrightarrow> db' = delete_path db (fst r) \<and> fst r \<notin> fst ` set db'
        \<and> (\<forall>e. os_remove fs (fst r) = Inl e \<longrightarrow>
              x = Some e \<and> fs' = fs \<and> os_path_isfile fs' (fst r))
        \<and> (\<forall>fs1. os_remove fs (fst r) = Inr fs1 \<longrightarrow> x = None \<and> fs' = fs1))
   \<and> (main sha256 DRY_RUN cs fs db = (Some e2, ev2, fs2, db2)
    \<longrightarrow> db2 = db \<and> (\<exists>pending. run_commands sha256 DRY_RUN cs fs db = (Some e2, ev2, fs2, pending)))
   \<and> (main sha256 DRY_RUN cs fs db = (None, ev2, fs2, db2)
    \<longrightarrow> run_commands sha256 DRY_RUN cs fs db = (None, ev2, fs2, db2))"
proof -
  have 1: "db' = delete_path db (fst r) \<and> fst r \<notin> fst ` set db'
        \<and> (\<forall>e. os_remove fs (fst r) = Inl e \<longrightarrow>
              x = Some e \<and> fs' = fs \<and> os_path_isfile fs' (fst r))
        \<and> (\<forall>fs1. os_remove fs (fst r) = Inr fs1 \<longrightarrow> x = None \<and> fs' = fs1)"
    if a: "Purge_step sha256 False theRealPath r fs db = (x, ev, fs', db')
      \<and> PurgingFile (fst r) \<in> set ev \<and> r \<in> set db"
  proof -
    from a have step: "Purge_step sha256 False theRealPath r fs db = (x, ev, fs', db')"
      and pf: "PurgingFile (fst r) \<in> set ev" and rdb: "r \<in> set db"
      by simp_all
    from Purge_step_purging [OF step pf]
    have grp: "\<forall>m\<in>set (select_hash db (snd r)). not_stale sha256 fs m"
      and two: "2 \<le> length (select_hash db (snd r))"
      and db': "db' = delete_path db (fst r)"
      and rm: "(x = None \<and> os_remove fs (fst r) = Inr fs')
               \<or> (fs' = fs \<and> (\<exists>e. x = Some e \<and> os_remove fs (fst r) = Inl e))"
      by simp_all
    from two have "select_hash db (snd r) \<noteq> []" by auto
    then have "snd r \<noteq> None" by (cases "snd r") (auto simp: select_hash_def)
    with rdb have "r \<in> set (select_hash db (snd r))" by (simp add: select_hash_mem)
    with grp have "not_stale sha256 fs r" by blast
    then have isf: "os_path_isfile fs (fst r)" using not_stale_isfile by blast
    from db' have "fst r \<notin> fst ` set db'" by (auto simp: delete_path_mem)
    with db' rm isf show ?thesis by auto
  qed
  have 2: "db2 = db \<and> (\<exists>pending. run_commands sha256 DRY_RUN cs fs db = (Some e2, ev2, fs2, pending))"
    if "main sha256 DRY_RUN cs fs db = (Some e2, ev2, fs2, db2)"
    using that
    by (cases "run_commands sha256 DRY_RUN cs fs db")
       (auto simp: main_def split: option.splits)
  have 3: "run_commands sha256 DRY_RUN cs fs db = (None, ev2, fs2, db2)"
    if "main sha256 DRY_RUN cs fs db = (None, ev2, fs2, db2)"
    using that
    by (cases "run_commands sha256 DRY_RUN cs fs db")
       (auto simp: main_def split: option.splits)
  from 1 2 3 show ?thesis by blast
qed

theorem Purge_failure_rolls_back_witness:
  "Purge_step toy_sha256 False ''/a'' (''/a/x.txt'', Some ''c'') fs_denied db_two_pairs =
     (Some (PermissionError ''/a/x.txt''), [PurgingFile ''/a/x.txt''], fs_denied,
      [(''/b/x.txt'', Some ''c''), (''/a/y.txt'', Some ''d''), (''/b/y.txt'', Some ''d'')])
   \<and> (''/a/x.txt'', Some ''c'') \<in> set db_two_pairs
   \<and> os_remove fs_denied ''/a/x.txt'' = Inl (PermissionError ''/a/x.txt'')
   \<and> os_path_isfile fs_denied ''/a/x.txt''
   \<and> main toy_sha256 False [PurgeCmd ''/a''] fs_denied_y db_two_pairs =
       (Some (PermissionError ''/a/y.txt''),
        [PurgingFile ''/a/x.txt'', PurgingFile ''/a/y.txt''],
        fs_denied_y\<lparr>nodes := (nodes fs_denied_y)(''/a/x.txt'' := None)\<rparr>, db_two_pairs)"
proof -
  have 2: "PurgingFile (fst (''/a/x.txt'', Some ''c'')) \<in> set [PurgingFile ''/a/x.txt'']"
    by simp
  have 3: "(''/a/x.txt'', Some ''c'') \<in> set db_two_pairs"
    by (simp add: db_two_pairs_def)
  have 4: "os_remove fs_denied ''/a/x.txt'' = Inl (PermissionError ''/a/x.txt'')"
    by (simp add: os_remove_def fs_denied_def)
  note inst = Purge_failure_rolls_back
    [of toy_sha256 "''/a''" "(''/a/x.txt'', Some ''c'')" fs_denied db_two_pairs
       "Some (PermissionError ''/a/x.txt'')" "[PurgingFile ''/a/x.txt'']" fs_denied
       "[(''/b/x.txt'', Some ''c''), (''/a/y.txt'', Some ''d''), (''/b/y.txt'', Some ''d'')]"]
  from inst Purge_step_denied 2 3 4 have isf: "os_path_isfile fs_denied ''/a/x.txt''"
    by auto
  from Purge_step_denied 3 4 isf main_run_denied_y show ?thesis by simp
qed

subsection \<open>C6: what ends a batch\<close>




subsection \<open>C4: the dry run\<close>

text \<open>
  C4 says that a sequence of commands reports the same decisions with
  \<open>DRY_RUN\<close> true as with \<open>DRY_RUN\<close> false. The dry run decides every candidate
  on the index and the files as they were at the start; the real run decides it
  on what its own deletions have left. With \<open>/a/x.txt\<close> and \<open>/b/x.txt\<close> of one
  content, purging \<open>/a\<close> and then \<open>/b\<close> announces the purge of \<open>/b/x.txt\<close> in
  the dry run, while the real run, which has deleted \<open>/a/x.txt\<close>, finds that
  \<open>/b/x.txt\<close> is not a duplicate and keeps it.
\<close>

theorem dry_run_reports_differ:
  "PurgingFile ''/b/x.txt''
     \<in> set (fst (snd (run_commands toy_sha256 True [PurgeCmd ''/a'', PurgeCmd ''/b'']
                        fs_ab db_scenario_A)))
   \<and> PurgingFile ''/b/x.txt''
     \<notin> set (fst (snd (run_commands toy_sha256 False [PurgeCmd ''/a'', PurgeCmd ''/b'']
                        fs_ab db_scenario_A)))"
  by (simp add: eval_simps HashFile_blocks fs_ab_def db_scenario_A_def upt_rec)

text \<open>
  C4, amended: with \<open>DRY_RUN\<close> true every sequence of \<open>Integrity\<close>, \<open>Purge\<close> and
  \<open>Remove\<close> commands leaves the index and the file system as they were. Run on
  the same index and file system, \<open>Integrity\<close> reports the same in both modes,
  \<open>Remove\<close> reports the same but for the dry run's \<open>Just kidding\<close> records, and
  so does \<open>Purge\<close> for a single candidate. Over a batch of \<open>Purge\<close> or a sequence
  of commands the reports can differ, because the real run's deletions and
  updates change what the later candidates meet.
\<close>

theorem dry_run_invariance:
  "snd (snd (run_commands sha256 True cs fs db)) = (fs, db)
   \<and> fst (snd (Integrity sha256 True fs db)) = fst (snd (Integrity sha256 False fs db))
   \<and> filter (\<lambda>e. e \<noteq> JustKidding) (fst (Remove True db thePath))
       = fst (Remove False db thePath)
   \<and> filter (\<lambda>e. e \<noteq> JustKidding) (fst (snd (Purge_step sha256 True theRealPath r fs db)))
       = fst (snd (Purge_step sha256 False theRealPath r fs db))"
proof -
  have "fst (snd (Integrity sha256 True fs db)) = fst (snd (Integrity sha256 False fs db))"
    unfolding Integrity_def by (rule Integrity_loop_events_eq)
  moreover have "filter (\<lambda>e. e \<noteq> JustKidding) (fst (Remove True db thePath))
       = fst (Remove False db thePath)"
    unfolding Remove_def by (rule Remove_loop_events)
  ultimately show ?thesis
    using run_commands_dry [of sha256 cs fs db]
      Purge_step_decisions [of sha256 theRealPath r fs db]
    by simp
qed

theorem dry_run_invariance_witness:
  "snd (snd (run_commands toy_sha256 True [PurgeCmd ''/a'', PurgeCmd ''/b'']
               fs_ab db_scenario_A)) = (fs_ab, db_scenario_A)
   \<and> fst (snd (Purge_step toy_sha256 False ''/a'' (''/a/x.txt'', Some ''c'')
                  fs_ab db_scenario_A)) = [PurgingFile ''/a/x.txt'']
   \<and> filter (\<lambda>e. e \<noteq> JustKidding)
        (fst (snd (Purge_step toy_sha256 True ''/a'' (''/a/x.txt'', Some ''c'')
                     fs_ab db_scenario_A))) = [PurgingFile ''/a/x.txt'']"
proof -
  have "fst (snd (Purge_step toy_sha256 False ''/a'' (''/a/x.txt'', Some ''c'')
                  fs_ab db_scenario_A)) = [PurgingFile ''/a/x.txt'']"
    by (simp add: eval_simps HashFile_blocks fs_ab_def db_scenario_A_def upt_rec)
  with dry_run_invariance
    [of toy_sha256 "[PurgeCmd ''/a'', PurgeCmd ''/b'']" fs_ab db_scenario_A "''/a''" "''/a''"
       "(''/a/x.txt'', Some ''c'')"]
  show ?thesis by simp
qed

end
